theory Spec2Isabelle
  imports Main "HOL-Library.Char_ord" "HOL-Library.List_Lexorder"
begin

section \<open>GitWrite: the offline sync queue of \<^verbatim>\<open>app.js\<close>\<close>

text \<open>
  The development embeds the parts of \<^verbatim>\<open>app.js\<close>, \<^verbatim>\<open>services/github.js\<close> and the
  unnamed GitHub service file (\<^verbatim>\<open>part_000\<close>) that persist, queue and publish notes.
  JavaScript objects become records whose optional properties are \<open>option\<close> fields
  (\<open>None\<close> is \<^verbatim>\<open>undefined\<close>), exceptions become values of \<open>exn\<close>, the IndexedDB
  object store \<^verbatim>\<open>queue\<close> becomes a list of jobs in key order, and the suspended
  activations of the asynchronous drain become part of the state of a step function.
\<close>

subsection \<open>Exceptions and strings\<close>

text \<open>
  An exception is modelled by its kind and its \<^verbatim>\<open>message\<close>. \<open>GenericError\<close> is
  \<^verbatim>\<open>new Error(msg)\<close>; \<open>DataError\<close> and \<open>InvalidCharacterError\<close> are DOM exceptions.
\<close>

datatype exn =
    TypeError string
  | URIError string
  | SyntaxError string
  | GenericError string
  | DataError string
  | InvalidCharacterError string

primrec message :: "exn \<Rightarrow> string" where
  "message (TypeError m) = m"
| "message (URIError m) = m"
| "message (SyntaxError m) = m"
| "message (GenericError m) = m"
| "message (DataError m) = m"
| "message (InvalidCharacterError m) = m"

text \<open>
  A JavaScript string is a sequence of 16-bit code units. Note text, whose encoding the
  code manipulates, is a list of code units (each below \<open>65536\<close>); identifiers, status
  names, messages and URLs, which the code only compares and concatenates, are \<open>string\<close>.
\<close>

type_synonym code_unit = nat
type_synonym jsstring = "code_unit list"

definition ascii :: "string \<Rightarrow> jsstring" where
  "ascii s = map of_char s"

subsection \<open>Queue jobs and the IndexedDB object store\<close>

text \<open>
  The properties of a queue job that some function of the repository reads or writes.
  \<open>job_id\<close> is the property \<^verbatim>\<open>id\<close> (the key path of the store), \<open>jtype\<close> is
  \<^verbatim>\<open>type\<close>.
\<close>

record job =
  job_id :: "string option"
  status :: "string option"
  error :: "string option"
  jtype :: "string option"
  content :: "jsstring option"
  timestamp :: "string option"
  createdAt :: "string option"
  noteId :: "string option"
  owner :: "string option"
  repo :: "string option"
  token :: "string option"
  path :: "string option"
  branch :: "string option"
  commitMessage :: "string option"

text \<open>
  The object store \<^verbatim>\<open>queue\<close> is created with \<^verbatim>\<open>{ keyPath: 'id' }\<close> and no key
  generator: every record holds its own key, keys are unique, and \<^verbatim>\<open>getAll\<close> returns
  the records in key order. \<^verbatim>\<open>put\<close> of a value without the key property throws a
  \<^verbatim>\<open>DataError\<close>; otherwise it overwrites the record with that key or inserts a new one.
  The model describes the application once the database is open (\<^verbatim>\<open>this.db\<close> is set);
  a transaction, with the requests made in it, is one atomic change of the store.
\<close>

type_synonym store = "job list"

definition job_key :: "job \<Rightarrow> string" where
  "job_key j = (case job_id j of None \<Rightarrow> [] | Some k \<Rightarrow> k)"

definition wf_store :: "store \<Rightarrow> bool" where
  "wf_store st = (list_all (\<lambda>j. job_id j \<noteq> None) st \<and> sorted_wrt (<) (map job_key st))"

fun upsert :: "string \<Rightarrow> job \<Rightarrow> store \<Rightarrow> store" where
  "upsert k v [] = [v]"
| "upsert k v (x # xs) =
     (case job_id x of
        None \<Rightarrow> x # upsert k v xs
      | Some k' \<Rightarrow>
          if k = k' then v # xs
          else if k < k' then v # x # xs
          else x # upsert k v xs)"

definition store_put :: "job \<Rightarrow> store \<Rightarrow> exn + store" where
  "store_put v st =
     (case job_id v of
        None \<Rightarrow> Inl (DataError ''Evaluating the object store's key path did not yield a value.'')
      | Some k \<Rightarrow> Inr (upsert k v st))"

definition store_get :: "string \<Rightarrow> store \<Rightarrow> job option" where
  "store_get k st = find (\<lambda>j. job_id j = Some k) st"

definition store_delete :: "string option \<Rightarrow> store \<Rightarrow> store" where
  "store_delete k st = (case k of None \<Rightarrow> st | Some i \<Rightarrow> filter (\<lambda>j. job_id j \<noteq> Some i) st)"

definition store_getAll :: "store \<Rightarrow> job list" where
  "store_getAll st = st"

text \<open>\<^verbatim>\<open>store.index('status').getAll(v)\<close>: the records whose \<^verbatim>\<open>status\<close> is \<open>v\<close>.\<close>

definition index_status_getAll :: "string \<Rightarrow> store \<Rightarrow> job list" where
  "index_status_getAll v st = filter (\<lambda>j. status j = Some v) st"

subsection \<open>The application object\<close>

text \<open>The remote destination \<^verbatim>\<open>this.github\<close>.\<close>

record github_cfg =
  gh_token :: string
  gh_owner :: string
  gh_repo :: string
  gh_branch :: string
  gh_pathTemplate :: string
  gh_commitMessage :: string
  gh_rememberToken :: "bool option"

text \<open>
  The object stored as JSON under a key of \<^verbatim>\<open>localStorage\<close> or \<^verbatim>\<open>sessionStorage\<close>:
  the properties of a destination that are present in it.
\<close>

record github_json =
  j_token :: "string option"
  j_owner :: "string option"
  j_repo :: "string option"
  j_branch :: "string option"
  j_pathTemplate :: "string option"
  j_commitMessage :: "string option"
  j_rememberToken :: "bool option"

type_synonym storage = "string \<rightharpoonup> github_json"

text \<open>The response of one \<^verbatim>\<open>commitToGitHub\<close> call: \<^verbatim>\<open>{success, data}\<close> or \<^verbatim>\<open>{success, error}\<close>.\<close>

record body =
  default_branch :: "string option"
  sha :: "string option"
  msg :: "string option"
  b64content :: "jsstring option"

datatype json = JNull | JObj body

datatype commit_result = Success json | Failure string

text \<open>
  A call of \<^verbatim>\<open>processSyncQueue\<close> that is suspended at an \<^verbatim>\<open>await\<close>: either at
  \<^verbatim>\<open>await this.commitToGitHub(job)\<close> or at \<^verbatim>\<open>await this.updateQueueJob(...)\<close>, with
  the jobs of \<^verbatim>\<open>pendingJobs\<close> the loop has not reached yet.
\<close>

datatype activation =
    AwaitCommit job "job list"
  | AwaitUpdate job commit_result "job list"

text \<open>
  A log of what the drain did, kept beside the state to speak about order: a call of
  \<^verbatim>\<open>commitToGitHub\<close>, its result, and a drain ended by an exception.
\<close>

datatype action = Attempt job | Outcome job commit_result | Rejected exn

text \<open>
  The fields of the \<^verbatim>\<open>GitWrite\<close> object that the queue, the publish path and the
  destination settings use, the browser state they read (\<^verbatim>\<open>navigator.onLine\<close>, the
  editor's text, the two storages, the object store), and the run-time state of the
  asynchronous code: the suspended drains, the number of \<^verbatim>\<open>getAll\<close> requests of
  \<^verbatim>\<open>loadSyncQueue\<close> that have not completed, and the log.
\<close>

record app =
  isSyncing :: bool
  onLine :: bool
  syncQueue :: "job list"
  queueStore :: store
  syncIndicator :: string
  notifications :: "(string \<times> string) list"
  github :: github_cfg
  editor :: jsstring
  localStorage :: storage
  sessionStorage :: storage
  drains :: "activation list"
  loads :: nat
  trace :: "action list"

definition showNotification :: "string \<Rightarrow> string \<Rightarrow> app \<Rightarrow> app" where
  "showNotification m ty s = s\<lparr>notifications := notifications s @ [(m, ty)]\<rparr>"

definition updateSyncIndicator :: "string \<Rightarrow> app \<Rightarrow> app" where
  "updateSyncIndicator st s = s\<lparr>syncIndicator := st\<rparr>"

subsection \<open>Sync queue management\<close>

text \<open>
  \<^verbatim>\<open>loadSyncQueue\<close> issues a \<^verbatim>\<open>getAll\<close> request and returns; \<^verbatim>\<open>this.syncQueue\<close> is
  replaced when the request succeeds, which is a later task of the event loop.
\<close>

definition loadSyncQueue :: "app \<Rightarrow> app" where
  "loadSyncQueue s = s\<lparr>loads := Suc (loads s)\<rparr>"

definition loadSyncQueue_onsuccess :: "app \<Rightarrow> app" where
  "loadSyncQueue_onsuccess s =
     (if 0 < loads s
      then s\<lparr>syncQueue := store_getAll (queueStore s), loads := loads s - 1\<rparr>
      else s)"

text \<open>
  \<^verbatim>\<open>clearCompletedJobs\<close>: one read-write transaction that reads the jobs indexed under
  \<^verbatim>\<open>'completed'\<close> and deletes each by its \<^verbatim>\<open>id\<close>, then reloads the queue.
\<close>

definition clearCompletedJobs :: "app \<Rightarrow> app" where
  "clearCompletedJobs s =
     (let completedJobs = index_status_getAll ''completed'' (queueStore s)
      in loadSyncQueue
           (s\<lparr>queueStore := fold (\<lambda>job st. store_delete (job_id job) st) completedJobs (queueStore s)\<rparr>))"

subsection \<open>The string functions of the JavaScript platform\<close>

text \<open>
  \<^verbatim>\<open>encodeURIComponent\<close>, \<^verbatim>\<open>decodeURIComponent\<close>, \<^verbatim>\<open>escape\<close>, \<^verbatim>\<open>unescape\<close>,
  \<^verbatim>\<open>btoa\<close> and \<^verbatim>\<open>atob\<close> are functions of the platform, not of the repository; they
  are modelled as ECMAScript and the HTML standard define them, on code units.
\<close>

definition hexdigit :: "nat \<Rightarrow> code_unit" where
  "hexdigit n = (if n < 10 then 48 + n else 55 + n)"

definition hexval :: "code_unit \<Rightarrow> nat option" where
  "hexval c =
     (if 48 \<le> c \<and> c \<le> 57 then Some (c - 48)
      else if 65 \<le> c \<and> c \<le> 70 then Some (c - 55)
      else if 97 \<le> c \<and> c \<le> 102 then Some (c - 87)
      else None)"

text \<open>\<open>pct b\<close> is the escape sequence \<^verbatim>\<open>%XX\<close> of the octet \<open>b\<close>.\<close>

definition pct :: "nat \<Rightarrow> jsstring" where
  "pct b = [37, hexdigit (b div 16), hexdigit (b mod 16)]"

fun hex2 :: "jsstring \<Rightarrow> nat option" where
  "hex2 (a # b # r) =
     (case hexval a of
        None \<Rightarrow> None
      | Some x \<Rightarrow> (case hexval b of None \<Rightarrow> None | Some y \<Rightarrow> Some (16 * x + y)))"
| "hex2 r = None"

fun hex4u :: "jsstring \<Rightarrow> nat option" where
  "hex4u (u # a # b # c # d # r) =
     (if u = 117 then
        (case hex2 [a, b] of
           None \<Rightarrow> None
         | Some x \<Rightarrow> (case hex2 [c, d] of None \<Rightarrow> None | Some y \<Rightarrow> Some (256 * x + y)))
      else None)"
| "hex4u r = None"

definition is_alnum :: "code_unit \<Rightarrow> bool" where
  "is_alnum c = ((48 \<le> c \<and> c \<le> 57) \<or> (65 \<le> c \<and> c \<le> 90) \<or> (97 \<le> c \<and> c \<le> 122))"

text \<open>The characters \<^verbatim>\<open>encodeURIComponent\<close> leaves alone: letters, digits and \<^verbatim>\<open>-_.!~*'()\<close>.\<close>

definition uri_unreserved :: "code_unit \<Rightarrow> bool" where
  "uri_unreserved c = (is_alnum c \<or> c \<in> set [45, 95, 46, 33, 126, 42, 39, 40, 41])"

definition is_high_surrogate :: "code_unit \<Rightarrow> bool" where
  "is_high_surrogate c = (55296 \<le> c \<and> c \<le> 56319)"

definition is_low_surrogate :: "code_unit \<Rightarrow> bool" where
  "is_low_surrogate c = (56320 \<le> c \<and> c \<le> 57343)"

definition utf8_encode :: "nat \<Rightarrow> nat list" where
  "utf8_encode cp =
     (if cp < 128 then [cp]
      else if cp < 2048 then [192 + cp div 64, 128 + cp mod 64]
      else if cp < 65536 then [224 + cp div 4096, 128 + (cp div 64) mod 64, 128 + cp mod 64]
      else [240 + cp div 262144, 128 + (cp div 4096) mod 64, 128 + (cp div 64) mod 64,
            128 + cp mod 64])"

definition prepend :: "'a list \<Rightarrow> exn + 'a list \<Rightarrow> exn + 'a list" where
  "prepend xs r = (case r of Inl e \<Rightarrow> Inl e | Inr ys \<Rightarrow> Inr (xs @ ys))"

fun encodeURIComponent :: "jsstring \<Rightarrow> exn + jsstring" where
  "encodeURIComponent [] = Inr []"
| "encodeURIComponent (c # cs) =
     (if uri_unreserved c then prepend [c] (encodeURIComponent cs)
      else if is_low_surrogate c then Inl (URIError ''URI malformed'')
      else if is_high_surrogate c then
        (case cs of
           [] \<Rightarrow> Inl (URIError ''URI malformed'')
         | d # ds \<Rightarrow>
             if is_low_surrogate d
             then prepend
                    (concat (map pct (utf8_encode ((c - 55296) * 1024 + (d - 56320) + 65536))))
                    (encodeURIComponent ds)
             else Inl (URIError ''URI malformed''))
      else prepend (concat (map pct (utf8_encode c))) (encodeURIComponent cs))"

function unescape :: "jsstring \<Rightarrow> jsstring" where
  "unescape [] = []"
| "unescape (c # cs) =
     (if c = 37 then
        (case hex4u cs of
           Some v \<Rightarrow> v # unescape (drop 5 cs)
         | None \<Rightarrow>
             (case hex2 cs of
                Some v \<Rightarrow> v # unescape (drop 2 cs)
              | None \<Rightarrow> c # unescape cs))
      else c # unescape cs)"
  by pat_completeness auto
termination
  by (relation "measure length") auto

definition b64char :: "nat \<Rightarrow> code_unit" where
  "b64char n =
     (if n < 26 then 65 + n
      else if n < 52 then 71 + n
      else if n < 62 then n - 4
      else if n = 62 then 43
      else 47)"

definition b64val :: "code_unit \<Rightarrow> nat option" where
  "b64val c =
     (if 65 \<le> c \<and> c \<le> 90 then Some (c - 65)
      else if 97 \<le> c \<and> c \<le> 122 then Some (c - 71)
      else if 48 \<le> c \<and> c \<le> 57 then Some (c + 4)
      else if c = 43 then Some 62
      else if c = 47 then Some 63
      else None)"

fun b64_enc :: "nat list \<Rightarrow> jsstring" where
  "b64_enc (a # b # c # r) =
     [b64char (a div 4), b64char ((a mod 4) * 16 + b div 16),
      b64char ((b mod 16) * 4 + c div 64), b64char (c mod 64)] @ b64_enc r"
| "b64_enc [a, b] =
     [b64char (a div 4), b64char ((a mod 4) * 16 + b div 16), b64char ((b mod 16) * 4), 61]"
| "b64_enc [a] = [b64char (a div 4), b64char ((a mod 4) * 16), 61, 61]"
| "b64_enc [] = []"

text \<open>\<^verbatim>\<open>btoa\<close> throws when a code unit is above \<open>255\<close>.\<close>

definition btoa :: "jsstring \<Rightarrow> exn + jsstring" where
  "btoa s =
     (if list_all (\<lambda>c. c \<le> 255) s then Inr (b64_enc s)
      else Inl (InvalidCharacterError ''The string to be encoded contains characters outside of the Latin1 range.''))"

fun b64_dec :: "nat list \<Rightarrow> jsstring" where
  "b64_dec (a # b # c # d # r) =
     [a * 4 + b div 16, (b mod 16) * 16 + c div 4, (c mod 4) * 64 + d] @ b64_dec r"
| "b64_dec [a, b, c] = [a * 4 + b div 16, (b mod 16) * 16 + c div 4]"
| "b64_dec [a, b] = [a * 4 + b div 16]"
| "b64_dec r = []"

definition strip_padding :: "jsstring \<Rightarrow> jsstring" where
  "strip_padding d =
     (if d \<noteq> [] \<and> last d = 61
      then (let d1 = butlast d in if d1 \<noteq> [] \<and> last d1 = 61 then butlast d1 else d1)
      else d)"

text \<open>
  \<^verbatim>\<open>atob\<close> (forgiving base64 decode): ASCII whitespace is removed, one or two padding
  characters are removed when the length is a multiple of four, and the rest must be
  alphabet characters whose number is not \<open>1\<close> modulo \<open>4\<close>.
\<close>

definition atob :: "jsstring \<Rightarrow> exn + jsstring" where
  "atob s =
     (let d = filter (\<lambda>c. c \<notin> set [9, 10, 12, 13, 32]) s;
          d' = (if length d mod 4 = 0 then strip_padding d else d)
      in if length d' mod 4 = 1 \<or> \<not> list_all (\<lambda>c. b64val c \<noteq> None) d'
         then Inl (InvalidCharacterError ''The string to be decoded is not correctly encoded.'')
         else Inr (b64_dec (List.map_filter b64val d')))"

definition escape_safe :: "code_unit \<Rightarrow> bool" where
  "escape_safe c = (is_alnum c \<or> c \<in> set [64, 42, 95, 43, 45, 46, 47])"

definition escape1 :: "code_unit \<Rightarrow> jsstring" where
  "escape1 c =
     (if escape_safe c then [c]
      else if c < 256 then pct c
      else [37, 117, hexdigit (c div 4096), hexdigit ((c div 256) mod 16),
            hexdigit ((c div 16) mod 16), hexdigit (c mod 16)])"

definition escape :: "jsstring \<Rightarrow> jsstring" where
  "escape s = concat (map escape1 s)"

text \<open>\<open>cont_bytes n s\<close> reads \<open>n\<close> escape sequences \<^verbatim>\<open>%XX\<close> of continuation octets.\<close>

fun cont_bytes :: "nat \<Rightarrow> jsstring \<Rightarrow> nat list option" where
  "cont_bytes 0 s = Some []"
| "cont_bytes (Suc n) [] = None"
| "cont_bytes (Suc n) (p # r) =
     (if p = 37 then
        (case hex2 r of
           None \<Rightarrow> None
         | Some b \<Rightarrow>
             if 128 \<le> b \<and> b < 192 then map_option (Cons b) (cont_bytes n (drop 2 r))
             else None)
      else None)"

definition lead_len :: "nat \<Rightarrow> nat" where
  "lead_len b =
     (if 192 \<le> b \<and> b < 224 then 2
      else if 224 \<le> b \<and> b < 240 then 3
      else if 240 \<le> b \<and> b < 248 then 4
      else 0)"

text \<open>
  The code point of a lead octet and its continuation octets, when they are a valid
  UTF-8 encoding: shortest form, no surrogate, at most \<open>0x10FFFF\<close>.
\<close>

fun utf8_decode :: "nat \<Rightarrow> nat list \<Rightarrow> nat option" where
  "utf8_decode b [b1] =
     (let cp = (b - 192) * 64 + (b1 - 128) in if 128 \<le> cp then Some cp else None)"
| "utf8_decode b [b1, b2] =
     (let cp = (b - 224) * 4096 + (b1 - 128) * 64 + (b2 - 128)
      in if 2048 \<le> cp \<and> \<not> (55296 \<le> cp \<and> cp \<le> 57343) then Some cp else None)"
| "utf8_decode b [b1, b2, b3] =
     (let cp = (b - 240) * 262144 + (b1 - 128) * 4096 + (b2 - 128) * 64 + (b3 - 128)
      in if 65536 \<le> cp \<and> cp \<le> 1114111 then Some cp else None)"
| "utf8_decode b bs = None"

definition utf16_encode :: "nat \<Rightarrow> jsstring" where
  "utf16_encode cp =
     (if cp < 65536 then [cp]
      else [55296 + (cp - 65536) div 1024, 56320 + (cp - 65536) mod 1024])"

function decodeURIComponent :: "jsstring \<Rightarrow> exn + jsstring" where
  "decodeURIComponent [] = Inr []"
| "decodeURIComponent (c # cs) =
     (if c \<noteq> 37 then prepend [c] (decodeURIComponent cs)
      else
        (case hex2 cs of
           None \<Rightarrow> Inl (URIError ''URI malformed'')
         | Some b \<Rightarrow>
             if b < 128 then prepend [b] (decodeURIComponent (drop 2 cs))
             else if lead_len b = 0 then Inl (URIError ''URI malformed'')
             else
               (case cont_bytes (lead_len b - 1) (drop 2 cs) of
                  None \<Rightarrow> Inl (URIError ''URI malformed'')
                | Some bs \<Rightarrow>
                    (case utf8_decode b bs of
                       None \<Rightarrow> Inl (URIError ''URI malformed'')
                     | Some cp \<Rightarrow>
                         prepend (utf16_encode cp)
                           (decodeURIComponent (drop (3 * lead_len b - 1) cs))))))"
  by pat_completeness auto
termination
  by (relation "measure length") auto

subsection \<open>UTF-8 safe base64 (the unnamed service file, lines 1 to 8)\<close>

definition utf8ToBase64 :: "jsstring \<Rightarrow> exn + jsstring" where
  "utf8ToBase64 str =
     (case encodeURIComponent str of Inl e \<Rightarrow> Inl e | Inr u \<Rightarrow> btoa (unescape u))"

definition base64ToUtf8 :: "jsstring \<Rightarrow> exn + jsstring" where
  "base64ToUtf8 str =
     (case atob str of Inl e \<Rightarrow> Inl e | Inr b \<Rightarrow> decodeURIComponent (escape b))"

subsection \<open>Strings without lone surrogates, and their UTF-8 octets\<close>

text \<open>
  These notions are not in the code; the properties of the encoding are stated with them.
  A string is \<open>well_formed\<close> when every surrogate code unit is part of a pair, high then
  low; \<open>utf8_bytes\<close> is the UTF-8 encoding of its code points, and \<open>scalar\<close> are the code
  points that have one. \<open>b64_vals\<close> are the six-bit groups of a list of octets and
  \<open>b64_pad\<close> the number of padding characters that follow them.
\<close>

fun well_formed :: "jsstring \<Rightarrow> bool" where
  "well_formed [] = True"
| "well_formed (c # cs) =
     (if is_low_surrogate c then False
      else if is_high_surrogate c
      then (case cs of [] \<Rightarrow> False | d # ds \<Rightarrow> is_low_surrogate d \<and> well_formed ds)
      else c < 65536 \<and> well_formed cs)"

fun utf8_bytes :: "jsstring \<Rightarrow> nat list" where
  "utf8_bytes [] = []"
| "utf8_bytes (c # cs) =
     (if is_high_surrogate c
      then (case cs of
              [] \<Rightarrow> []
            | d # ds \<Rightarrow> utf8_encode ((c - 55296) * 1024 + (d - 56320) + 65536) @ utf8_bytes ds)
      else utf8_encode c @ utf8_bytes cs)"

definition scalar :: "nat \<Rightarrow> bool" where
  "scalar cp = (cp < 1114112 \<and> \<not> (55296 \<le> cp \<and> cp \<le> 57343))"

fun b64_vals :: "nat list \<Rightarrow> nat list" where
  "b64_vals (a # b # c # r) =
     [a div 4, (a mod 4) * 16 + b div 16, (b mod 16) * 4 + c div 64, c mod 64] @ b64_vals r"
| "b64_vals [a, b] = [a div 4, (a mod 4) * 16 + b div 16, (b mod 16) * 4]"
| "b64_vals [a] = [a div 4, (a mod 4) * 16]"
| "b64_vals [] = []"

definition b64_pad :: "nat list \<Rightarrow> nat" where
  "b64_pad bs = (3 - length bs mod 3) mod 3"

subsection \<open>The network and the GitHub API\<close>

text \<open>
  A request as \<^verbatim>\<open>fetch\<close> sends it, and what \<^verbatim>\<open>await fetch(...)\<close> gives: a rejection
  (a \<^verbatim>\<open>TypeError\<close>, no network path) or a response with its \<^verbatim>\<open>ok\<close> flag, its status and
  what \<^verbatim>\<open>await response.json()\<close> yields (\<open>None\<close> when the body is not JSON and the
  promise rejects). A parsed body is \<^verbatim>\<open>null\<close> or an object, of which the model keeps the
  properties the code reads. The network is any function from requests to outcomes.
\<close>

record payload =
  p_message :: "string option"
  p_content :: jsstring
  p_branch :: "string option"
  p_sha :: "string option"

record request =
  http_method :: string
  url :: string
  authorization :: string
  req_body :: "payload option"

record response =
  ok :: bool
  http_status :: nat
  parsed :: "json option"

datatype fetch_outcome = NetworkError string | Responded response

type_synonym net = "request \<Rightarrow> fetch_outcome"

definition fetch :: "net \<Rightarrow> request \<Rightarrow> exn + response" where
  "fetch nw r = (case nw r of NetworkError m \<Rightarrow> Inl (TypeError m) | Responded x \<Rightarrow> Inr x)"

definition json_of :: "response \<Rightarrow> exn + json" where
  "json_of r =
     (case parsed r of
        None \<Rightarrow> Inl (SyntaxError ''Unexpected token in JSON'')
      | Some j \<Rightarrow> Inr j)"

text \<open>Reading a property of a parsed body; on \<^verbatim>\<open>null\<close> it throws a \<^verbatim>\<open>TypeError\<close>.\<close>

definition read_prop :: "(body \<Rightarrow> 'a option) \<Rightarrow> json \<Rightarrow> exn + 'a option" where
  "read_prop f j =
     (case j of
        JNull \<Rightarrow> Inl (TypeError ''Cannot read properties of null'')
      | JObj b \<Rightarrow> Inr (f b))"

text \<open>A value in a template literal: \<^verbatim>\<open>undefined\<close> prints as the word.\<close>

definition str_of :: "string option \<Rightarrow> string" where
  "str_of x = (case x of None \<Rightarrow> ''undefined'' | Some v \<Rightarrow> v)"

definition js_string :: "jsstring option \<Rightarrow> jsstring" where
  "js_string x = (case x of None \<Rightarrow> ascii ''undefined'' | Some v \<Rightarrow> v)"

definition truthy :: "'a list option \<Rightarrow> bool" where
  "truthy x = (case x of None \<Rightarrow> False | Some v \<Rightarrow> v \<noteq> [])"

definition digit_char :: "nat \<Rightarrow> char" where
  "digit_char n = char_of (48 + n)"

function show_nat :: "nat \<Rightarrow> string" where
  "show_nat n = (if n < 10 then [digit_char n] else show_nat (n div 10) @ [digit_char (n mod 10)])"
  by pat_completeness auto
termination
  by (relation "measure id") auto

definition api :: string where
  "api = ''https://api.github.com''"

subsection \<open>\<^verbatim>\<open>GitHubService\<close> of \<^verbatim>\<open>services/github.js\<close>\<close>

definition contents_url :: "string \<Rightarrow> string \<Rightarrow> string \<Rightarrow> string" where
  "contents_url ow rp pa = api @ ''/repos/'' @ ow @ ''/'' @ rp @ ''/contents/'' @ pa"

definition getFile :: "net \<Rightarrow> string \<Rightarrow> string \<Rightarrow> string \<Rightarrow> string \<Rightarrow> string \<Rightarrow> exn + json" where
  "getFile nw tok ow rp pa br =
     (case fetch nw \<lparr>http_method = ''GET'', url = contents_url ow rp pa @ ''?ref='' @ br,
                      authorization = ''token '' @ tok, req_body = None\<rparr> of
        Inl e \<Rightarrow> Inl e
      | Inr resp \<Rightarrow>
          if \<not> ok resp then Inl (GenericError ''File not found'')
          else json_of resp)"

text \<open>
  The inner \<^verbatim>\<open>try\<close> of \<^verbatim>\<open>createOrUpdateFile\<close>: the \<^verbatim>\<open>sha\<close> of the existing file, or
  \<^verbatim>\<open>undefined\<close> when anything in it throws.
\<close>

definition existing_sha :: "exn + json \<Rightarrow> string option" where
  "existing_sha r =
     (case r of
        Inl e \<Rightarrow> None
      | Inr existing \<Rightarrow> (case read_prop sha existing of Inl e \<Rightarrow> None | Inr v \<Rightarrow> v))"

text \<open>The \<^verbatim>\<open>PUT\<close> of \<^verbatim>\<open>createOrUpdateFile\<close> and what follows it, given the encoded content.\<close>

definition put_file ::
  "net \<Rightarrow> string \<Rightarrow> string \<Rightarrow> string \<Rightarrow> string \<Rightarrow> jsstring \<Rightarrow> string \<Rightarrow> string \<Rightarrow>
     string option \<Rightarrow> exn + json" where
  "put_file nw tok ow rp pa encoded m br sh =
     (case fetch nw \<lparr>http_method = ''PUT'', url = contents_url ow rp pa,
                      authorization = ''token '' @ tok,
                      req_body = Some \<lparr>p_message = Some m, p_content = encoded,
                                        p_branch = Some br, p_sha = sh\<rparr>\<rparr> of
        Inl e \<Rightarrow> Inl e
      | Inr resp \<Rightarrow>
          if \<not> ok resp then
            (case json_of resp of
               Inl e \<Rightarrow> Inl e
             | Inr err \<Rightarrow>
                 (case read_prop msg err of
                    Inl e \<Rightarrow> Inl e
                  | Inr m' \<Rightarrow> Inl (GenericError (case m' of None \<Rightarrow> [] | Some t \<Rightarrow> t))))
          else json_of resp)"

text \<open>\<^verbatim>\<open>services/github.js\<close>: the content is encoded with \<^verbatim>\<open>btoa(content)\<close>.\<close>

definition createOrUpdateFile ::
  "net \<Rightarrow> string \<Rightarrow> string \<Rightarrow> string \<Rightarrow> string \<Rightarrow> jsstring \<Rightarrow> string \<Rightarrow> string \<Rightarrow> exn + json" where
  "createOrUpdateFile nw tok ow rp pa cont m br =
     (let sh = existing_sha (getFile nw tok ow rp pa br)
      in case btoa cont of
           Inl e \<Rightarrow> Inl e
         | Inr encoded \<Rightarrow> put_file nw tok ow rp pa encoded m br sh)"

subsection \<open>\<^verbatim>\<open>GitHubService\<close> of the unnamed service file\<close>

text \<open>
  Here \<^verbatim>\<open>getFile\<close> also decodes the content it fetched, with \<^verbatim>\<open>base64ToUtf8\<close> after
  removing line feeds, and \<^verbatim>\<open>createOrUpdateFile\<close> encodes with \<^verbatim>\<open>utf8ToBase64\<close>.
\<close>

definition getFile_utf8 :: "net \<Rightarrow> string \<Rightarrow> string \<Rightarrow> string \<Rightarrow> string \<Rightarrow> string \<Rightarrow> exn + json" where
  "getFile_utf8 nw tok ow rp pa br =
     (case getFile nw tok ow rp pa br of
        Inl e \<Rightarrow> Inl e
      | Inr data \<Rightarrow>
          (case read_prop b64content data of
             Inl e \<Rightarrow> Inl e
           | Inr c \<Rightarrow>
               if truthy c then
                 (case base64ToUtf8 (filter (\<lambda>u. u \<noteq> 10) (js_string c)) of
                    Inl e \<Rightarrow> Inl e
                  | Inr decoded \<Rightarrow> Inr data)
               else Inr data))"

definition createOrUpdateFile_utf8 ::
  "net \<Rightarrow> string \<Rightarrow> string \<Rightarrow> string \<Rightarrow> string \<Rightarrow> jsstring \<Rightarrow> string \<Rightarrow> string \<Rightarrow> exn + json" where
  "createOrUpdateFile_utf8 nw tok ow rp pa cont m br =
     (let sh = existing_sha (getFile_utf8 nw tok ow rp pa br)
      in case utf8ToBase64 cont of
           Inl e \<Rightarrow> Inl e
         | Inr encoded \<Rightarrow> put_file nw tok ow rp pa encoded m br sh)"

subsection \<open>\<^verbatim>\<open>commitToGitHub\<close> (\<^verbatim>\<open>app.js\<close>, lines 528 to 598)\<close>

definition job_auth :: "job \<Rightarrow> string" where
  "job_auth jb = ''token '' @ str_of (token jb)"

definition repo_url :: "job \<Rightarrow> string" where
  "repo_url jb = api @ ''/repos/'' @ str_of (owner jb) @ ''/'' @ str_of (repo jb)"

text \<open>Lines 531 to 544: the branch of the job, or the repository's default branch.\<close>

definition resolve_branch :: "net \<Rightarrow> job \<Rightarrow> exn + string option" where
  "resolve_branch nw jb =
     (if truthy (branch jb) then Inr (branch jb)
      else
        (case fetch nw \<lparr>http_method = ''GET'', url = repo_url jb,
                         authorization = job_auth jb, req_body = None\<rparr> of
           Inl e \<Rightarrow> Inl e
         | Inr repoResponse \<Rightarrow>
             if ok repoResponse then
               (case json_of repoResponse of
                  Inl e \<Rightarrow> Inl e
                | Inr repoData \<Rightarrow> read_prop default_branch repoData)
             else Inr (branch jb)))"

text \<open>Lines 547 to 561: the \<^verbatim>\<open>sha\<close> of the file when it exists.\<close>

definition lookup_sha :: "net \<Rightarrow> job \<Rightarrow> string option \<Rightarrow> exn + string option" where
  "lookup_sha nw jb br =
     (case fetch nw \<lparr>http_method = ''GET'',
                      url = repo_url jb @ ''/contents/'' @ str_of (path jb) @ ''?ref='' @ str_of br,
                      authorization = job_auth jb, req_body = None\<rparr> of
        Inl e \<Rightarrow> Inl e
      | Inr fileResponse \<Rightarrow>
          if ok fileResponse then
            (case json_of fileResponse of
               Inl e \<Rightarrow> Inl e
             | Inr fileData \<Rightarrow> read_prop sha fileData)
          else Inr None)"

definition commit_request :: "job \<Rightarrow> jsstring \<Rightarrow> string option \<Rightarrow> string option \<Rightarrow> request" where
  "commit_request jb encoded br sh =
     \<lparr>http_method = ''PUT'', url = repo_url jb @ ''/contents/'' @ str_of (path jb),
      authorization = job_auth jb,
      req_body = Some \<lparr>p_message = commitMessage jb, p_content = encoded, p_branch = br,
                        p_sha = (if truthy sh then sh else None)\<rparr>\<rparr>"

text \<open>Lines 575 to 594: the \<^verbatim>\<open>PUT\<close> and the reading of its response.\<close>

definition send_commit :: "net \<Rightarrow> request \<Rightarrow> exn + commit_result" where
  "send_commit nw rq =
     (case fetch nw rq of
        Inl e \<Rightarrow> Inl e
      | Inr commitResponse \<Rightarrow>
          if ok commitResponse then
            (case json_of commitResponse of
               Inl e \<Rightarrow> Inl e
             | Inr result \<Rightarrow> Inr (Success result))
          else
            (case json_of commitResponse of
               Inl e \<Rightarrow> Inl e
             | Inr err \<Rightarrow>
                 (case read_prop msg err of
                    Inl e \<Rightarrow> Inl e
                  | Inr m \<Rightarrow>
                      Inl (GenericError
                             (if truthy m then str_of m
                              else ''HTTP '' @ show_nat (http_status commitResponse))))))"

text \<open>The \<^verbatim>\<open>try\<close> block of \<^verbatim>\<open>commitToGitHub\<close>.\<close>

definition commitToGitHub_try :: "net \<Rightarrow> job \<Rightarrow> exn + commit_result" where
  "commitToGitHub_try nw jb =
     (case resolve_branch nw jb of
        Inl e \<Rightarrow> Inl e
      | Inr br \<Rightarrow>
          (case lookup_sha nw jb br of
             Inl e \<Rightarrow> Inl e
           | Inr sh \<Rightarrow>
               (case utf8ToBase64 (js_string (content jb)) of
                  Inl e \<Rightarrow> Inl e
                | Inr encoded \<Rightarrow> send_commit nw (commit_request jb encoded br sh))))"

text \<open>
  \<^verbatim>\<open>commitToGitHub\<close>: the \<^verbatim>\<open>catch\<close> turns every exception of the block into
  \<^verbatim>\<open>{ success: false, error: error.message }\<close>. The result type keeps a place for an
  exception that would leave the function.
\<close>

definition commitToGitHub :: "net \<Rightarrow> job \<Rightarrow> exn + commit_result" where
  "commitToGitHub nw jb =
     (case commitToGitHub_try nw jb of
        Inl e \<Rightarrow> Inr (Failure (message e))
      | Inr r \<Rightarrow> Inr r)"

subsection \<open>Interactive publish (\<^verbatim>\<open>saveToGitHub\<close>) and the enqueue\<close>

function replace_all :: "string \<Rightarrow> string \<Rightarrow> string \<Rightarrow> string" where
  "replace_all pat rep [] = []"
| "replace_all pat rep (c # cs) =
     (if pat \<noteq> [] \<and> take (length pat) (c # cs) = pat
      then rep @ replace_all pat rep (drop (length pat) (c # cs))
      else c # replace_all pat rep cs)"
  by pat_completeness auto
termination
  by (relation "measure (\<lambda>(pat, rep, t). length t)") auto

text \<open>
  \<^verbatim>\<open>processTemplate\<close>; \<open>now\<close> is \<^verbatim>\<open>new Date().toISOString()\<close>.
\<close>

definition processTemplate :: "string \<Rightarrow> string \<Rightarrow> string" where
  "processTemplate now template =
     (let date = takeWhile (\<lambda>c. c \<noteq> CHR ''T'') now;
          stamp = map (\<lambda>c. if c = CHR '':'' \<or> c = CHR ''.'' then CHR ''-'' else c) now
      in replace_all ''{{timestamp}}'' stamp (replace_all ''{{date}}'' date template))"

text \<open>The white space that \<^verbatim>\<open>trim\<close> removes; \<open>blank s\<close> is \<^verbatim>\<open>!s.trim()\<close>.\<close>

definition js_whitespace :: "code_unit \<Rightarrow> bool" where
  "js_whitespace c =
     (c \<in> set [9, 10, 11, 12, 13, 32, 160, 5760, 8232, 8233, 8239, 8287, 12288, 65279]
      \<or> (8192 \<le> c \<and> c \<le> 8202))"

definition blank :: "jsstring \<Rightarrow> bool" where
  "blank s = list_all js_whitespace s"

text \<open>
  \<^verbatim>\<open>addToSyncQueue\<close>: \<^verbatim>\<open>store.put(job)\<close>; on success the queue is reloaded and the
  promise resolves, on an exception of \<^verbatim>\<open>put\<close> the promise rejects.
\<close>

definition addToSyncQueue :: "job \<Rightarrow> app \<Rightarrow> exn + app" where
  "addToSyncQueue jb s =
     (case store_put jb (queueStore s) of
        Inl e \<Rightarrow> Inl e
      | Inr st \<Rightarrow> Inr (loadSyncQueue (s\<lparr>queueStore := st\<rparr>)))"

text \<open>
  The object literal that \<^verbatim>\<open>saveToGitHub\<close> enqueues:
  \<^verbatim>\<open>{ type: 'github', content: this.editor.value, timestamp: new Date().toISOString() }\<close>.
\<close>

definition queued_job :: "jsstring \<Rightarrow> string \<Rightarrow> job" where
  "queued_job text now =
     \<lparr>job_id = None, status = None, error = None, jtype = Some ''github'',
      content = Some text, timestamp = Some now, createdAt = None, noteId = None,
      owner = None, repo = None, token = None, path = None, branch = None,
      commitMessage = None\<rparr>"

text \<open>
  \<^verbatim>\<open>saveToGitHub\<close>, with the \<^verbatim>\<open>createOrUpdateFile\<close> of the loaded \<^verbatim>\<open>GitHubService\<close>
  as the parameter \<open>publish\<close>. The result is the state it leaves and the exception with
  which its promise rejects, if it does.
\<close>

definition saveToGitHub ::
  "(net \<Rightarrow> string \<Rightarrow> string \<Rightarrow> string \<Rightarrow> string \<Rightarrow> jsstring \<Rightarrow> string \<Rightarrow> string \<Rightarrow> exn + json) \<Rightarrow>
     net \<Rightarrow> string \<Rightarrow> app \<Rightarrow> app \<times> exn option" where
  "saveToGitHub publish nw now s =
     (if gh_token (github s) = [] then (s, None)
      else if blank (editor s) then (showNotification ''Cannot save empty note'' ''error'' s, None)
      else
        (let pa = processTemplate now (gh_pathTemplate (github s));
             m = processTemplate now (gh_commitMessage (github s));
             s1 = showNotification ''Saving to GitHub...'' ''info'' s
         in case publish nw (gh_token (github s)) (gh_owner (github s)) (gh_repo (github s))
                   pa (editor s) m (gh_branch (github s)) of
              Inr r \<Rightarrow> (showNotification ''Saved to GitHub successfully'' ''success'' s1, None)
            | Inl err \<Rightarrow>
                (let s2 = showNotification (''GitHub save failed: '' @ message err) ''error'' s1
                 in if \<not> onLine s2 then
                      (case addToSyncQueue (queued_job (editor s2) now) s2 of
                         Inl e \<Rightarrow> (s2, Some e)
                       | Inr s3 \<Rightarrow> (showNotification ''Added to sync queue'' ''warning'' s3, None))
                    else (s2, None))))"

subsection \<open>The drain (\<^verbatim>\<open>processSyncQueue\<close>, \<^verbatim>\<open>updateQueueJob\<close>)\<close>

text \<open>The argument \<^verbatim>\<open>updates\<close>: \<^verbatim>\<open>{ status }\<close> or \<^verbatim>\<open>{ status, error }\<close>.\<close>

record updates =
  u_status :: string
  u_error :: "string option"

text \<open>\<^verbatim>\<open>Object.assign(job, updates)\<close>.\<close>

definition assign :: "job \<Rightarrow> updates \<Rightarrow> job" where
  "assign jb u =
     jb\<lparr>status := Some (u_status u),
        error := (case u_error u of None \<Rightarrow> error jb | Some e \<Rightarrow> Some e)\<rparr>"

definition updateQueueJob :: "string option \<Rightarrow> updates \<Rightarrow> store \<Rightarrow> exn + store" where
  "updateQueueJob jobId u st =
     (case jobId of
        None \<Rightarrow> Inl (DataError ''No key or key range specified.'')
      | Some k \<Rightarrow>
          (case store_get k st of
             None \<Rightarrow> Inl (GenericError ''Job not found'')
           | Some jb \<Rightarrow> store_put (assign jb u) st))"

definition is_pending :: "job \<Rightarrow> bool" where
  "is_pending jb = (status jb = Some ''pending'')"

text \<open>
  Lines 632 to 641, up to the first \<^verbatim>\<open>await\<close>: the guard, the selection, the flag, and
  the call of \<^verbatim>\<open>commitToGitHub\<close> on the first job, at which the drain is suspended.
\<close>

definition processSyncQueue :: "app \<Rightarrow> app" where
  "processSyncQueue s =
     (if isSyncing s \<or> \<not> onLine s then s
      else
        (case filter is_pending (syncQueue s) of
           [] \<Rightarrow> s
         | jb # rest \<Rightarrow>
             (updateSyncIndicator ''syncing'' (s\<lparr>isSyncing := True\<rparr>))
               \<lparr>drains := drains s @ [AwaitCommit jb rest], trace := trace s @ [Attempt jb]\<rparr>))"

definition remove_nth :: "nat \<Rightarrow> 'a list \<Rightarrow> 'a list" where
  "remove_nth i xs = take i xs @ drop (Suc i) xs"

definition updates_of :: "commit_result \<Rightarrow> updates" where
  "updates_of r =
     (case r of
        Success d \<Rightarrow> \<lparr>u_status = ''completed'', u_error = None\<rparr>
      | Failure e \<Rightarrow> \<lparr>u_status = ''failed'', u_error = Some e\<rparr>)"

definition notify_result :: "commit_result \<Rightarrow> app \<Rightarrow> app" where
  "notify_result r s =
     (case r of
        Success d \<Rightarrow> showNotification ''Note synced to GitHub'' ''success'' s
      | Failure e \<Rightarrow> showNotification (''Sync failed: '' @ e) ''error'' s)"

text \<open>
  The drain \<open>i\<close> resumes when its \<^verbatim>\<open>commitToGitHub\<close> call settles (line 641), over the
  network \<open>nw\<close> of that call. It calls \<^verbatim>\<open>updateQueueJob\<close>, which throws at once when the
  job has no \<^verbatim>\<open>id\<close> and otherwise suspends the drain on its transaction. An exception
  leaves \<^verbatim>\<open>processSyncQueue\<close>: the activation ends where it stands.
\<close>

definition commit_returns :: "nat \<Rightarrow> net \<Rightarrow> app \<Rightarrow> app" where
  "commit_returns i nw s =
     (if i < length (drains s) then
        (case drains s ! i of
           AwaitUpdate jb r rest \<Rightarrow> s
         | AwaitCommit jb rest \<Rightarrow>
             (case commitToGitHub nw jb of
                Inl e \<Rightarrow>
                  s\<lparr>drains := remove_nth i (drains s), trace := trace s @ [Rejected e]\<rparr>
              | Inr result \<Rightarrow>
                  (case job_id jb of
                     None \<Rightarrow>
                       s\<lparr>drains := remove_nth i (drains s),
                         trace := trace s @ [Outcome jb result,
                                             Rejected (DataError ''No key or key range specified.'')]\<rparr>
                   | Some k \<Rightarrow>
                       s\<lparr>drains := (drains s)[i := AwaitUpdate jb result rest],
                         trace := trace s @ [Outcome jb result]\<rparr>)))
      else s)"

text \<open>
  The drain \<open>i\<close> resumes when the transaction of \<^verbatim>\<open>updateQueueJob\<close> has run (lines 644
  to 657). When the job was the last one, \<^verbatim>\<open>loadSyncQueue()\<close> is called, which returns
  after issuing its request; the continuation after \<^verbatim>\<open>await this.loadSyncQueue()\<close> is a
  microtask of the same task, so the flag is cleared in this step.
\<close>

definition update_settles :: "nat \<Rightarrow> app \<Rightarrow> app" where
  "update_settles i s =
     (if i < length (drains s) then
        (case drains s ! i of
           AwaitCommit jb rest \<Rightarrow> s
         | AwaitUpdate jb result rest \<Rightarrow>
             (case updateQueueJob (job_id jb) (updates_of result) (queueStore s) of
                Inl e \<Rightarrow>
                  s\<lparr>drains := remove_nth i (drains s), trace := trace s @ [Rejected e]\<rparr>
              | Inr st \<Rightarrow>
                  (let s1 = notify_result result (s\<lparr>queueStore := st\<rparr>)
                   in case rest of
                        nxt # rest' \<Rightarrow>
                          s1\<lparr>drains := (drains s1)[i := AwaitCommit nxt rest'],
                             trace := trace s1 @ [Attempt nxt]\<rparr>
                      | [] \<Rightarrow>
                          updateSyncIndicator (if onLine s1 then ''online'' else ''offline'')
                            ((loadSyncQueue s1)\<lparr>isSyncing := False,
                                                 drains := remove_nth i (drains s1)\<rparr>))))
      else s)"

subsection \<open>Event handlers\<close>

definition handleOnline :: "app \<Rightarrow> app" where
  "handleOnline s = processSyncQueue (updateSyncIndicator ''online'' s)"

definition handleOffline :: "app \<Rightarrow> app" where
  "handleOffline s = updateSyncIndicator ''offline'' s"

definition syncNow :: "app \<Rightarrow> app" where
  "syncNow s =
     (if \<not> onLine s then showNotification ''No internet connection'' ''error'' s
      else processSyncQueue s)"

text \<open>\<^verbatim>\<open>forgetToken\<close>, when the user confirms the dialog.\<close>

definition forgetToken :: "app \<Rightarrow> app" where
  "forgetToken s =
     showNotification ''GitHub token forgotten'' ''success''
       (loadSyncQueue
          (s\<lparr>github := (github s)\<lparr>gh_token := []\<rparr>,
             localStorage := (localStorage s)(''gitwrite-github'' := None),
             sessionStorage := (sessionStorage s)(''gitwrite-github'' := None),
             queueStore := []\<rparr>))"

subsection \<open>Start-up and the destination settings\<close>

definition default_github :: github_cfg where
  "default_github =
     \<lparr>gh_token = [], gh_owner = [], gh_repo = [], gh_branch = [],
      gh_pathTemplate = ''notes/{{date}}.md'', gh_commitMessage = ''Add note {{date}}'',
      gh_rememberToken = Some False\<rparr>"

text \<open>
  \<^verbatim>\<open>initializeProperties\<close>, over the browser state the new object finds: connectivity,
  the object store and the two storages.
\<close>

definition initializeProperties :: "bool \<Rightarrow> store \<Rightarrow> storage \<Rightarrow> storage \<Rightarrow> app" where
  "initializeProperties online st ls ss =
     \<lparr>isSyncing = False, onLine = online, syncQueue = [], queueStore = st,
      syncIndicator = [], notifications = [], github = default_github, editor = [],
      localStorage = ls, sessionStorage = ss, drains = [], loads = 0, trace = []\<rparr>"

text \<open>The spread \<^verbatim>\<open>{ ...this.github, ...JSON.parse(githubSettings) }\<close>.\<close>

definition merge_github :: "github_cfg \<Rightarrow> github_json \<Rightarrow> github_cfg" where
  "merge_github g j =
     \<lparr>gh_token = (case j_token j of None \<Rightarrow> gh_token g | Some v \<Rightarrow> v),
      gh_owner = (case j_owner j of None \<Rightarrow> gh_owner g | Some v \<Rightarrow> v),
      gh_repo = (case j_repo j of None \<Rightarrow> gh_repo g | Some v \<Rightarrow> v),
      gh_branch = (case j_branch j of None \<Rightarrow> gh_branch g | Some v \<Rightarrow> v),
      gh_pathTemplate = (case j_pathTemplate j of None \<Rightarrow> gh_pathTemplate g | Some v \<Rightarrow> v),
      gh_commitMessage = (case j_commitMessage j of None \<Rightarrow> gh_commitMessage g | Some v \<Rightarrow> v),
      gh_rememberToken =
        (case j_rememberToken j of None \<Rightarrow> gh_rememberToken g | Some v \<Rightarrow> Some v)\<rparr>"

definition restoreNote :: "app \<Rightarrow> app" where
  "restoreNote s =
     (case (case localStorage s ''gitwrite-github'' of
              Some j \<Rightarrow> Some j
            | None \<Rightarrow> sessionStorage s ''gitwrite-github'') of
        Some githubSettings \<Rightarrow> s\<lparr>github := merge_github (github s) githubSettings\<rparr>
      | None \<Rightarrow> s)"

definition checkOnlineStatus :: "app \<Rightarrow> app" where
  "checkOnlineStatus s = updateSyncIndicator (if onLine s then ''online'' else ''offline'') s"

text \<open>
  The constructor: the properties, the open of the database (whose success handler
  calls \<^verbatim>\<open>loadSyncQueue\<close>), \<^verbatim>\<open>checkOnlineStatus\<close> and \<^verbatim>\<open>restoreNote\<close>.
\<close>

definition new_GitWrite :: "bool \<Rightarrow> store \<Rightarrow> storage \<Rightarrow> storage \<Rightarrow> app" where
  "new_GitWrite online st ls ss =
     restoreNote (checkOnlineStatus (loadSyncQueue (initializeProperties online st ls ss)))"

text \<open>The fields of the settings dialog.\<close>

record form =
  f_token :: string
  f_owner :: string
  f_repo :: string
  f_branch :: string
  f_path :: string
  f_commit :: string
  f_remember :: bool

text \<open>
  \<^verbatim>\<open>saveGitHubSettings\<close>. The connection test \<^verbatim>\<open>getFile(...).catch(() => {})\<close> changes
  nothing and cannot throw, so it is left out.
\<close>

definition saveGitHubSettings :: "form \<Rightarrow> app \<Rightarrow> app" where
  "saveGitHubSettings f s =
     (let tok = f_token f; ow = f_owner f; rp = f_repo f;
          br = (if f_branch f = [] then ''main'' else f_branch f)
      in if tok = [] \<or> ow = [] \<or> rp = []
         then showNotification ''Please fill in required GitHub settings'' ''error'' s
         else
           (let g = \<lparr>gh_token = tok, gh_owner = ow, gh_repo = rp, gh_branch = br,
                     gh_pathTemplate = (if f_path f = [] then ''notes/{{date}}.md'' else f_path f),
                     gh_commitMessage = (if f_commit f = [] then ''Add note {{date}}'' else f_commit f),
                     gh_rememberToken = None\<rparr>;
                stored = \<lparr>j_token = Some (if gh_rememberToken g = Some True then tok else []),
                          j_owner = Some (gh_owner g), j_repo = Some (gh_repo g),
                          j_branch = Some (gh_branch g),
                          j_pathTemplate = Some (gh_pathTemplate g),
                          j_commitMessage = Some (gh_commitMessage g),
                          j_rememberToken = gh_rememberToken g\<rparr>
            in showNotification ''GitHub settings saved'' ''success''
                 (s\<lparr>github := g,
                    localStorage := (localStorage s)(''github-settings'' \<mapsto> stored)\<rparr>)))"

text \<open>
  Closing and reopening the application: a new object over the persisted browser state.
  A reload keeps \<^verbatim>\<open>sessionStorage\<close>; a new browser session starts with an empty one.
\<close>

definition reload :: "app \<Rightarrow> app" where
  "reload s = new_GitWrite (onLine s) (queueStore s) (localStorage s) (sessionStorage s)"

definition restart :: "app \<Rightarrow> app" where
  "restart s = new_GitWrite (onLine s) (queueStore s) (localStorage s) Map.empty"

subsection \<open>The event loop\<close>

text \<open>
  One task of the event loop: the start-up timer of \<^verbatim>\<open>startAutosave\<close>, the browser's
  \<^verbatim>\<open>online\<close> and \<^verbatim>\<open>offline\<close> events, a click on \<^verbatim>\<open>sync-now\<close>, the settling of a
  drain's \<^verbatim>\<open>commitToGitHub\<close> call or of its \<^verbatim>\<open>updateQueueJob\<close> transaction, the success
  of a \<^verbatim>\<open>getAll\<close> request of \<^verbatim>\<open>loadSyncQueue\<close>, the five-minute purge timer, a
  confirmed \<^verbatim>\<open>forgetToken\<close>, the user typing in the editor, a \<^verbatim>\<open>saveToGitHub\<close> (with
  the service that is loaded, the network and the clock of that call) and a
  \<^verbatim>\<open>saveGitHubSettings\<close>.
\<close>

datatype event =
    StartupTimer
  | Online
  | Offline
  | SyncNow
  | CommitReturns nat net
  | UpdateSettles nat
  | LoadSucceeds
  | PurgeTimer
  | ForgetToken
  | Typed jsstring
  | SaveToGitHub
      "net \<Rightarrow> string \<Rightarrow> string \<Rightarrow> string \<Rightarrow> string \<Rightarrow> jsstring \<Rightarrow> string \<Rightarrow> string \<Rightarrow> exn + json"
      net string
  | SaveSettings form

fun step :: "event \<Rightarrow> app \<Rightarrow> app" where
  "step StartupTimer s = processSyncQueue s"
| "step Online s = handleOnline (s\<lparr>onLine := True\<rparr>)"
| "step Offline s = handleOffline (s\<lparr>onLine := False\<rparr>)"
| "step SyncNow s = syncNow s"
| "step (CommitReturns i nw) s = commit_returns i nw s"
| "step (UpdateSettles i) s = update_settles i s"
| "step LoadSucceeds s = loadSyncQueue_onsuccess s"
| "step PurgeTimer s = clearCompletedJobs s"
| "step ForgetToken s = forgetToken s"
| "step (Typed text) s = s\<lparr>editor := text\<rparr>"
| "step (SaveToGitHub publish nw now) s = fst (saveToGitHub publish nw now s)"
| "step (SaveSettings f) s = saveGitHubSettings f s"

definition run :: "event list \<Rightarrow> app \<Rightarrow> app" where
  "run evs s = fold step evs s"

text \<open>
  One drain pass that nothing interrupts: the call, then for each selected job the
  settling of its commit (over the network of that call) and of its update, then the
  success of the reload.
\<close>

definition pass_events :: "net list \<Rightarrow> event list" where
  "pass_events nws = concat (map (\<lambda>nw. [CommitReturns 0 nw, UpdateSettles 0]) nws)"

definition drain_pass :: "net list \<Rightarrow> app \<Rightarrow> app" where
  "drain_pass nws s = run (StartupTimer # pass_events nws @ [LoadSucceeds]) s"

text \<open>The states the application can be in: a new object, and what tasks make of it.\<close>

inductive reachable :: "app \<Rightarrow> bool" where
  start: "wf_store st \<Longrightarrow> reachable (new_GitWrite online st ls ss)"
| task: "reachable s \<Longrightarrow> reachable (step e s)"

subsection \<open>Sample states\<close>

text \<open>
  A queue job as the drain reads it, two networks (one that accepts every request, one
  without a path to the server), a clock reading, and states built from them.
\<close>

definition mk_job :: "string \<Rightarrow> string \<Rightarrow> jsstring \<Rightarrow> job" where
  "mk_job k st text =
     \<lparr>job_id = Some k, status = Some st, error = None, jtype = Some ''github'',
      content = Some text, timestamp = Some ''2024-05-06T07:08:09.123Z'',
      createdAt = Some ''2024-05-06T07:08:09.123Z'', noteId = None,
      owner = Some ''alice'', repo = Some ''notes'', token = Some ''ghp_x'',
      path = Some ''notes/2024-05-06.md'', branch = Some ''main'',
      commitMessage = Some ''Add note 2024-05-06''\<rparr>"

definition accepted :: json where
  "accepted = JObj \<lparr>default_branch = Some ''main'', sha = Some ''4b825dc'', msg = None,
                    b64content = None\<rparr>"

definition nw_accept :: net where
  "nw_accept = (\<lambda>rq. Responded \<lparr>ok = True, http_status = 200, parsed = Some accepted\<rparr>)"

definition nw_down :: net where
  "nw_down = (\<lambda>rq. NetworkError ''Failed to fetch'')"

definition nw_conflict :: net where
  "nw_conflict =
     (\<lambda>rq. if http_method rq = ''PUT''
            then Responded \<lparr>ok = False, http_status = 409,
                            parsed = Some (JObj \<lparr>default_branch = None, sha = None,
                                                 msg = Some ''Conflict'', b64content = None\<rparr>)\<rparr>
            else Responded \<lparr>ok = True, http_status = 200, parsed = Some accepted\<rparr>)"

definition now0 :: string where
  "now0 = ''2024-05-06T07:08:09.123Z''"

definition cafe :: jsstring where
  "cafe = [99, 97, 102, 233]"

definition hot_beverage :: jsstring where
  "hot_beverage = [9749]"

definition job_a :: job where
  "job_a = mk_job ''a'' ''pending'' (ascii ''draft'')"

definition job_b :: job where
  "job_b = mk_job ''b'' ''completed'' cafe"

definition job_c :: job where
  "job_c = mk_job ''c'' ''failed'' (ascii ''old'')"

definition job_d :: job where
  "job_d = mk_job ''d'' ''pending'' hot_beverage"

definition sample_store :: store where
  "sample_store = [job_a, job_b, job_c, job_d]"

text \<open>The application after start-up over \<open>sample_store\<close>, online, with the queue loaded.\<close>

definition loaded_app :: app where
  "loaded_app = step LoadSucceeds (new_GitWrite True sample_store Map.empty Map.empty)"

text \<open>Offline, a destination configured in this session, and \<^verbatim>\<open>draft\<close> in the editor.\<close>

definition offline_draft :: app where
  "offline_draft =
     (new_GitWrite False [] Map.empty Map.empty)
       \<lparr>github := \<lparr>gh_token = ''ghp_x'', gh_owner = ''alice'', gh_repo = ''notes'',
                   gh_branch = ''main'', gh_pathTemplate = ''notes/{{date}}.md'',
                   gh_commitMessage = ''Add note {{date}}'', gh_rememberToken = None\<rparr>,
        editor := ascii ''draft''\<rparr>"

definition filled_form :: form where
  "filled_form =
     \<lparr>f_token = ''ghp_x'', f_owner = ''alice'', f_repo = ''notes'', f_branch = ''dev'',
      f_path = ''journal/{{date}}.md'', f_commit = ''Journal {{date}}'', f_remember = True\<rparr>"

definition fresh_app :: app where
  "fresh_app = new_GitWrite True [] Map.empty Map.empty"

definition rejected :: "action \<Rightarrow> bool" where
  "rejected a = (case a of Rejected e \<Rightarrow> True | Attempt jb \<Rightarrow> False | Outcome jb r \<Rightarrow> False)"

definition attempts :: "action list \<Rightarrow> job list" where
  "attempts tr = concat (map (\<lambda>a. case a of Attempt jb \<Rightarrow> [jb] | Outcome jb r \<Rightarrow> [] | Rejected e \<Rightarrow> []) tr)"

text \<open>A drain is started over the loaded sample queue.\<close>

definition started_app :: app where
  "started_app = step StartupTimer loaded_app"

text \<open>
  The token is forgotten while the first commit of that drain is on the network; the
  commit then succeeds and the update of the job finds the store empty.
\<close>

definition aborted_app :: app where
  "aborted_app = run [ForgetToken, CommitReturns 0 nw_accept, UpdateSettles 0] started_app"

text \<open>One uninterrupted pass over the loaded sample queue, every publish accepted.\<close>

definition drained_app :: app where
  "drained_app = drain_pass [nw_accept, nw_accept] loaded_app"

subsection \<open>Invariants of the drain\<close>

text \<open>\<open>calm s\<close>: no drain has been ended by an exception so far.\<close>

definition calm :: "app \<Rightarrow> bool" where
  "calm s = list_all (\<lambda>a. \<not> rejected a) (trace s)"

definition drain_inv :: "app \<Rightarrow> bool" where
  "drain_inv s =
     (length (drains s) \<le> 1 \<and> (drains s \<noteq> [] \<longrightarrow> isSyncing s) \<and>
      (calm s \<longrightarrow> isSyncing s \<longrightarrow> drains s \<noteq> []))"

text \<open>The jobs a suspended drain will still pass to \<^verbatim>\<open>commitToGitHub\<close>, or has just passed.\<close>

fun selected :: "activation \<Rightarrow> job list" where
  "selected (AwaitCommit jb rest) = jb # rest"
| "selected (AwaitUpdate jb r rest) = rest"

definition pending_inv :: "app \<Rightarrow> bool" where
  "pending_inv s =
     (list_all is_pending (attempts (trace s)) \<and>
      list_all (\<lambda>act. list_all is_pending (selected act)) (drains s))"

text \<open>
  \<open>retired i s\<close>: no record with the key \<open>i\<close> is pending in the store or in the loaded
  queue, and no suspended drain has selected one. \<open>quiet i tr\<close>: the log \<open>tr\<close> has no
  \<^verbatim>\<open>commitToGitHub\<close> call on a job with the key \<open>i\<close>.
\<close>

definition retired :: "string option \<Rightarrow> app \<Rightarrow> bool" where
  "retired i s =
     ((\<forall>j \<in> set (queueStore s). job_id j = i \<longrightarrow> \<not> is_pending j) \<and>
      (\<forall>j \<in> set (syncQueue s). job_id j = i \<longrightarrow> \<not> is_pending j) \<and>
      (\<forall>act \<in> set (drains s). \<forall>j \<in> set (selected act). job_id j \<noteq> i))"

definition quiet :: "string option \<Rightarrow> action list \<Rightarrow> bool" where
  "quiet i tr = (\<forall>jb \<in> set (attempts tr). job_id jb \<noteq> i)"

subsection \<open>What an uninterrupted pass computes\<close>

text \<open>
  The result of one \<^verbatim>\<open>commitToGitHub\<close> call, the store after the update that follows
  it, the store after a sequence of them, and the log and the notifications of a pass.
\<close>

text \<open>A pass over the loaded sample queue whose first publish meets a conflict.\<close>

definition conflicted_app :: app where
  "conflicted_app = drain_pass [nw_conflict, nw_accept] loaded_app"

text \<open>The same pass, before the \<^verbatim>\<open>getAll\<close> request of its reload has succeeded.\<close>

definition stale_app :: app where
  "stale_app = run (StartupTimer # pass_events [nw_conflict, nw_accept]) loaded_app"

definition result_of :: "net \<Rightarrow> job \<Rightarrow> commit_result" where
  "result_of nw jb = (case commitToGitHub nw jb of Inl e \<Rightarrow> Failure (message e) | Inr r \<Rightarrow> r)"

definition apply_result :: "job \<Rightarrow> commit_result \<Rightarrow> store \<Rightarrow> store" where
  "apply_result jb r st =
     map (\<lambda>x. if job_id x = job_id jb then assign x (updates_of r) else x) st"

fun settle :: "(job \<times> commit_result) list \<Rightarrow> store \<Rightarrow> store" where
  "settle [] st = st"
| "settle ((jb, r) # rest) st = settle rest (apply_result jb r st)"

definition pass_log :: "(job \<times> commit_result) list \<Rightarrow> action list" where
  "pass_log jrs = concat (map (\<lambda>(jb, r). [Attempt jb, Outcome jb r]) jrs)"

definition pass_notes :: "commit_result list \<Rightarrow> (string \<times> string) list" where
  "pass_notes rs =
     map (\<lambda>r. case r of Success d \<Rightarrow> (''Note synced to GitHub'', ''success'')
                      | Failure e \<Rightarrow> (''Sync failed: '' @ e, ''error'')) rs"

section \<open>Properties\<close>

subsection \<open>Evaluation\<close>

lemma cont_bytes_numeral:
  "cont_bytes (numeral k) s = cont_bytes (Suc (pred_numeral k)) s"
  by (simp add: numeral_eq_Suc)

lemmas codec_defs =
  utf8ToBase64_def base64ToUtf8_def ascii_def uri_unreserved_def is_alnum_def
  is_low_surrogate_def is_high_surrogate_def utf8_encode_def pct_def hexdigit_def prepend_def
  hexval_def btoa_def b64char_def atob_def strip_padding_def b64val_def List.map_filter_def
  escape_def escape1_def escape_safe_def lead_len_def utf16_encode_def Let_def
  cont_bytes_numeral

lemmas sample_defs =
  mk_job_def job_a_def job_b_def job_c_def job_d_def sample_store_def cafe_def
  hot_beverage_def ascii_def

lemmas startup_defs =
  new_GitWrite_def restoreNote_def checkOnlineStatus_def loadSyncQueue_def
  initializeProperties_def updateSyncIndicator_def default_github_def

lemma wf_sample_store: "wf_store sample_store"
  by (simp add: wf_store_def job_key_def sample_defs)

lemma wf_store_ids:
  assumes "wf_store st"
  shows "\<forall>j \<in> set st. job_id j \<noteq> None" and "distinct (map job_id st)"
proof -
  show ids: "\<forall>j \<in> set st. job_id j \<noteq> None"
    using assms by (simp add: wf_store_def list_all_iff)
  from assms have "distinct (map job_key st)"
    by (simp add: wf_store_def strict_sorted_iff)
  moreover have "map job_key st = map (\<lambda>x. case x of None \<Rightarrow> [] | Some k \<Rightarrow> k) (map job_id st)"
    by (simp add: job_key_def comp_def)
  ultimately have "distinct (map (\<lambda>x. case x of None \<Rightarrow> [] | Some k \<Rightarrow> k) (map job_id st))"
    by simp
  then show "distinct (map job_id st)"
    unfolding distinct_map [of _ "map job_id st"] by simp
qed

subsection \<open>The periodic purge\<close>

lemma fold_store_delete:
  "fold (\<lambda>job st. store_delete (job_id job) st) js st =
     filter (\<lambda>j. job_id j = None \<or> job_id j \<notin> set (map job_id js)) st"
proof (induction js arbitrary: st)
  case Nil
  then show ?case by simp
next
  case (Cons a js)
  show ?case
  proof (cases "job_id a")
    case None
    then show ?thesis
      using Cons.IH [of st] by (auto simp: store_delete_def intro: filter_cong)
  next
    case (Some k)
    then show ?thesis
      using Cons.IH [of "filter (\<lambda>j. job_id j \<noteq> Some k) st"]
      by (auto simp: store_delete_def intro: filter_cong)
  qed
qed

lemma purge_keeps:
  assumes "wf_store st"
  shows "filter (\<lambda>j. job_id j = None \<or> job_id j \<notin> set (map job_id (index_status_getAll c st))) st =
         filter (\<lambda>j. status j \<noteq> Some c) st"
proof (rule filter_cong [OF refl])
  fix x assume x: "x \<in> set st"
  from assms have ids: "\<forall>j \<in> set st. job_id j \<noteq> None" and d: "distinct (map job_id st)"
    by (simp_all add: wf_store_ids)
  have inj: "inj_on job_id (set st)"
    using d by (simp add: distinct_map)
  have "job_id x \<in> set (map job_id (index_status_getAll c st)) \<longleftrightarrow> status x = Some c"
  proof
    assume "job_id x \<in> set (map job_id (index_status_getAll c st))"
    then obtain y where y: "y \<in> set st" "status y = Some c" "job_id y = job_id x"
      by (auto simp: index_status_getAll_def)
    with inj x have "y = x" by (auto dest: inj_onD)
    with y show "status x = Some c" by simp
  next
    assume "status x = Some c"
    with x show "job_id x \<in> set (map job_id (index_status_getAll c st))"
      by (auto simp: index_status_getAll_def)
  qed
  with ids x show "(job_id x = None \<or> job_id x \<notin> set (map job_id (index_status_getAll c st)))
      = (status x \<noteq> Some c)"
    by auto
qed

text \<open>
  C8. For every queue store (keys present and unique, as the key path of the store
  guarantees), the purge leaves exactly the jobs whose status is not \<^verbatim>\<open>'completed'\<close>,
  unchanged and in place: a job is deleted if and only if its status is
  \<^verbatim>\<open>'completed'\<close>, whatever its \<^verbatim>\<open>createdAt\<close>; pending and failed jobs stay.
\<close>

theorem purge_removes_exactly_completed:
  "wf_store (queueStore s) \<Longrightarrow>
     queueStore (clearCompletedJobs s) =
       filter (\<lambda>j. status j \<noteq> Some ''completed'') (queueStore s) \<and>
     (\<forall>j \<in> set (queueStore s).
        (status j = Some ''pending'' \<or> status j = Some ''failed''
           \<longrightarrow> j \<in> set (queueStore (clearCompletedJobs s))) \<and>
        (status j = Some ''completed'' \<longrightarrow> j \<notin> set (queueStore (clearCompletedJobs s))))"
proof -
  assume wf: "wf_store (queueStore s)"
  have eq: "queueStore (clearCompletedJobs s) =
           filter (\<lambda>j. status j \<noteq> Some ''completed'') (queueStore s)"
    using purge_keeps [OF wf, of "''completed''"]
    by (simp add: clearCompletedJobs_def loadSyncQueue_def Let_def fold_store_delete)
  show ?thesis
    unfolding eq by auto
qed

theorem purge_removes_exactly_completed_witness:
  "wf_store (queueStore loaded_app) \<and>
   queueStore (clearCompletedJobs loaded_app) = [job_a, job_c, job_d]"
proof -
  have q: "queueStore loaded_app = sample_store"
    by (simp add: loaded_app_def startup_defs loadSyncQueue_onsuccess_def)
  have wf: "wf_store (queueStore loaded_app)"
    by (simp add: q wf_sample_store)
  have "filter (\<lambda>j. status j \<noteq> Some ''completed'') sample_store = [job_a, job_c, job_d]"
    by (simp add: sample_defs)
  with purge_removes_exactly_completed [OF wf] q wf show ?thesis
    by simp
qed

subsection \<open>\<^verbatim>\<open>commitToGitHub\<close> settles with a result\<close>

lemma commitToGitHub_Inr: "\<exists>r. commitToGitHub nw jb = Inr r"
  by (simp add: commitToGitHub_def split: sum.splits)





lemma utf8_draft: "utf8ToBase64 (ascii ''draft'') = Inr (ascii ''ZHJhZnQ='')"
  by (simp add: codec_defs)

lemma commit_accept_a: "commitToGitHub nw_accept job_a = Inr (Success accepted)"
  using utf8_draft
  by (simp add: commitToGitHub_def commitToGitHub_try_def resolve_branch_def lookup_sha_def
      fetch_def nw_accept_def truthy_def mk_job_def job_a_def send_commit_def json_of_def
      read_prop_def accepted_def js_string_def)


subsection \<open>The UTF-8 safe encoding is invertible\<close>

text \<open>
  \<^verbatim>\<open>unescape(encodeURIComponent(s))\<close> is the string whose code units are the UTF-8 octets of
  \<open>s\<close>, when \<open>s\<close> has no lone surrogate.
\<close>

lemma hexval_hexdigit: "n < 16 \<Longrightarrow> hexval (hexdigit n) = Some n"
  by (auto simp: hexval_def hexdigit_def)

lemma hexdigit_not_u: "n < 16 \<Longrightarrow> hexdigit n \<noteq> 117"
  by (auto simp: hexdigit_def)

lemma div16: "b < 256 \<Longrightarrow> b div 16 < (16::nat)"
  by (simp add: div_less_iff_less_mult)

lemma hex2_pct: "b < 256 \<Longrightarrow> hex2 (hexdigit (b div 16) # hexdigit (b mod 16) # r) = Some b"
  by (simp add: hexval_hexdigit div16)

lemma hex4u_not_u: "x \<noteq> 117 \<Longrightarrow> hex4u (x # r) = None"
  by (rule hex4u.cases [of "x # r"]) auto

lemma unescape_pct: "b < 256 \<Longrightarrow> unescape (pct b @ r) = b # unescape r"
  by (simp add: pct_def hex4u_not_u hexdigit_not_u hex2_pct div16 del: hex2.simps)

lemma unescape_pcts:
  "list_all (\<lambda>b. b < 256) bs \<Longrightarrow> unescape (concat (map pct bs) @ r) = bs @ unescape r"
  by (induction bs) (simp_all add: unescape_pct)


lemma utf8_encode_bytes: "cp < 1114112 \<Longrightarrow> list_all (\<lambda>b. b < 256) (utf8_encode cp)"
  by (auto simp: utf8_encode_def div_less_iff_less_mult)

lemma pair_bound:
  "is_high_surrogate c \<Longrightarrow> is_low_surrogate d \<Longrightarrow>
     65536 \<le> (c - 55296) * 1024 + (d - 56320) + 65536 \<and>
     (c - 55296) * 1024 + (d - 56320) + 65536 < 1114112"
  by (auto simp: is_high_surrogate_def is_low_surrogate_def)

lemma utf8_bytes_range: "well_formed s \<Longrightarrow> list_all (\<lambda>b. b < 256) (utf8_bytes s)"
proof (induction s rule: well_formed.induct)
  case 1
  then show ?case by simp
next
  case (2 c cs)
  show ?case
  proof (cases "is_high_surrogate c")
    case True
    with "2.prems" obtain d ds where cs: "cs = d # ds" and d: "is_low_surrogate d"
      and wf: "well_formed ds"
      by (auto split: if_splits list.splits)
    from "2.prems" True have nl: "\<not> is_low_surrogate c" by (auto split: if_splits)
    from "2.IH"(1) [OF nl True cs] wf have "list_all (\<lambda>b. b < 256) (utf8_bytes ds)" by simp
    with True cs pair_bound [OF True d] show ?thesis
      by (simp add: utf8_encode_bytes)
  next
    case False
    with "2.prems" have nl: "\<not> is_low_surrogate c" and c: "c < 65536" and wf: "well_formed cs"
      by (auto split: if_splits)
    from "2.IH"(2) [OF nl False] wf have "list_all (\<lambda>b. b < 256) (utf8_bytes cs)" by simp
    with False c show ?thesis by (simp add: utf8_encode_bytes)
  qed
qed


lemma unreserved_ascii:
  "uri_unreserved c \<Longrightarrow> c < 128 \<and> c \<noteq> 37 \<and> \<not> is_high_surrogate c \<and> \<not> is_low_surrogate c"
  by (auto simp: uri_unreserved_def is_alnum_def is_high_surrogate_def is_low_surrogate_def)

lemma utf8_encode_ascii: "c < 128 \<Longrightarrow> utf8_encode c = [c]"
  by (simp add: utf8_encode_def)

lemma encode_unescape:
  "well_formed s \<Longrightarrow> \<exists>E. encodeURIComponent s = Inr E \<and> unescape E = utf8_bytes s"
proof (induction s rule: well_formed.induct)
  case 1
  then show ?case by simp
next
  case (2 c cs)
  from "2.prems" have nl: "\<not> is_low_surrogate c" by (auto split: if_splits)
  show ?case
  proof (cases "is_high_surrogate c")
    case True
    with "2.prems" obtain d ds where cs: "cs = d # ds" and d: "is_low_surrogate d"
      and wf: "well_formed ds"
      by (auto split: if_splits list.splits)
    from "2.IH"(1) [OF nl True cs] wf obtain E where
      E: "encodeURIComponent ds = Inr E" "unescape E = utf8_bytes ds" by auto
    have nu: "\<not> uri_unreserved c" using True unreserved_ascii by blast
    let ?cp = "(c - 55296) * 1024 + (d - 56320) + 65536"
    have "list_all (\<lambda>b. b < 256) (utf8_encode ?cp)"
      using pair_bound [OF True d] by (simp add: utf8_encode_bytes)
    then have "unescape (concat (map pct (utf8_encode ?cp)) @ E) = utf8_encode ?cp @ unescape E"
      by (rule unescape_pcts)
    with E nu nl True cs d show ?thesis
      by (simp add: prepend_def)
  next
    case False
    with "2.prems" have c: "c < 65536" and wf: "well_formed cs"
      by (auto split: if_splits)
    from "2.IH"(2) [OF nl False] wf obtain E where
      E: "encodeURIComponent cs = Inr E" "unescape E = utf8_bytes cs" by auto
    show ?thesis
    proof (cases "uri_unreserved c")
      case True
      with unreserved_ascii [OF True] E False show ?thesis
        by (simp add: prepend_def utf8_encode_ascii)
    next
      case nu: False
      have "list_all (\<lambda>b. b < 256) (utf8_encode c)"
        using c by (simp add: utf8_encode_bytes)
      then have "unescape (concat (map pct (utf8_encode c)) @ E) = utf8_encode c @ unescape E"
        by (rule unescape_pcts)
      with E nu nl False show ?thesis
        by (simp add: prepend_def)
    qed
  qed
qed

text \<open>\<^verbatim>\<open>atob\<close> undoes \<^verbatim>\<open>btoa\<close> on octets.\<close>

lemma mod3_Suc3: "Suc (Suc (Suc n)) mod 3 = n mod 3"
  by presburger

lemma b64_pad_simps:
  "b64_pad (a # b # c # r) = b64_pad r" "b64_pad [a, b] = Suc 0" "b64_pad [a] = Suc (Suc 0)"
  "b64_pad [] = 0"
  by (simp_all add: b64_pad_def mod3_Suc3)

lemma b64_enc_shape: "b64_enc bs = map b64char (b64_vals bs) @ replicate (b64_pad bs) 61"
  by (induction bs rule: b64_enc.induct) (simp_all add: b64_pad_simps)


lemma pack_div: "x < n \<Longrightarrow> (y * n + x) div n = (y::nat)"
  by simp

lemma pack_mod: "x < n \<Longrightarrow> (y * n + x) mod n = (x::nat)"
  by simp

lemma pack_lt: "x < m \<Longrightarrow> y < n \<Longrightarrow> x * n + y < m * (n::nat)"
proof -
  assume x: "x < m" and y: "y < n"
  from y have "x * n + y < Suc x * n" by simp
  also from x have "Suc x * n \<le> m * n" by (intro mult_le_mono1) simp
  finally show ?thesis .
qed

lemma byte_div:
  assumes "a < (256::nat)"
  shows "a div 4 < 64" "a div 16 < 16" "a div 64 < 4"
  using assms by (simp_all add: div_less_iff_less_mult)

lemma sextets_range:
  assumes "b < (256::nat)" and "c < (256::nat)"
  shows "(a mod 4) * 16 + b div 16 < 64" "(b mod 16) * 4 + c div 64 < 64" "(b mod 16) * 4 < 64"
    "(a mod 4) * 16 < 64"
proof -
  have "(a mod 4) * 16 + b div 16 < 4 * 16"
    by (rule pack_lt) (simp_all add: byte_div [OF assms(1)])
  then show "(a mod 4) * 16 + b div 16 < 64" by simp
  have "(b mod 16) * 4 + c div 64 < 16 * 4"
    by (rule pack_lt) (simp_all add: byte_div [OF assms(2)])
  then show "(b mod 16) * 4 + c div 64 < 64" by simp
  have "(b mod 16) * 4 + 0 < 16 * 4"
    by (rule pack_lt) simp_all
  then show "(b mod 16) * 4 < 64" by simp
  have "(a mod 4) * 16 + 0 < 4 * 16"
    by (rule pack_lt) simp_all
  then show "(a mod 4) * 16 < 64" by simp
qed

lemma b64_vals_range: "list_all (\<lambda>b. b < 256) bs \<Longrightarrow> list_all (\<lambda>v. v < 64) (b64_vals bs)"
proof (induction bs rule: b64_vals.induct)
  case (1 a b c r)
  then have a: "a < 256" and b: "b < 256" and c: "c < 256"
    and r: "list_all (\<lambda>v. v < 64) (b64_vals r)" by simp_all
  from r show ?case
    by (simp add: byte_div(1) [OF a] sextets_range(1,2) [OF b c])
next
  case (2 a b)
  then have a: "a < 256" and b: "b < 256" by simp_all
  show ?case
    by (simp add: byte_div(1) [OF a] sextets_range(1,3) [OF b b])
next
  case (3 a)
  then have a: "a < 256" by simp
  show ?case
    by (simp add: byte_div(1) [OF a] sextets_range(4) [OF a a])
next
  case 4
  then show ?case by simp
qed

lemma sextets_join:
  assumes "b < (256::nat)" and "c < (256::nat)"
  shows "a div 4 * 4 + ((a mod 4) * 16 + b div 16) div 16 = a"
    "(((a mod 4) * 16 + b div 16) mod 16) * 16 + ((b mod 16) * 4 + c div 64) div 4 = b"
    "(((b mod 16) * 4 + c div 64) mod 4) * 64 + c mod 64 = c"
    "(((a mod 4) * 16 + b div 16) mod 16) * 16 + ((b mod 16) * 4) div 4 = b"
proof -
  have 1: "((a mod 4) * 16 + b div 16) div 16 = a mod 4"
    by (rule pack_div) (rule byte_div(2) [OF assms(1)])
  have 2: "((a mod 4) * 16 + b div 16) mod 16 = b div 16"
    by (rule pack_mod) (rule byte_div(2) [OF assms(1)])
  have 3: "((b mod 16) * 4 + c div 64) div 4 = b mod 16"
    by (rule pack_div) (rule byte_div(3) [OF assms(2)])
  have 4: "((b mod 16) * 4 + c div 64) mod 4 = c div 64"
    by (rule pack_mod) (rule byte_div(3) [OF assms(2)])
  show "a div 4 * 4 + ((a mod 4) * 16 + b div 16) div 16 = a"
    unfolding 1 by (rule div_mult_mod_eq)
  show "(((a mod 4) * 16 + b div 16) mod 16) * 16 + ((b mod 16) * 4 + c div 64) div 4 = b"
    unfolding 2 3 by (rule div_mult_mod_eq)
  show "(((b mod 16) * 4 + c div 64) mod 4) * 64 + c mod 64 = c"
    unfolding 4 by (rule div_mult_mod_eq)
  have "((b mod 16) * 4) div 4 = b mod 16" by simp
  then show "(((a mod 4) * 16 + b div 16) mod 16) * 16 + ((b mod 16) * 4) div 4 = b"
    unfolding 2 by (simp only: div_mult_mod_eq)
qed

lemma b64_dec_vals: "list_all (\<lambda>b. b < 256) bs \<Longrightarrow> b64_dec (b64_vals bs) = bs"
proof (induction bs rule: b64_vals.induct)
  case (1 a b c r)
  then have b: "b < 256" and c: "c < 256" and r: "b64_dec (b64_vals r) = r" by simp_all
  show ?case
    by (simp only: b64_vals.simps b64_dec.simps append_Cons append_Nil sextets_join(1,2,3) [OF b c] r)
next
  case (2 a b)
  then have b: "b < 256" by simp
  show ?case
    by (simp only: b64_vals.simps b64_dec.simps sextets_join(1,4) [OF b b])
next
  case (3 a)
  have "a div 4 * 4 + ((a mod 4) * 16) div 16 = a"
    by simp
  then show ?case by (simp only: b64_vals.simps b64_dec.simps)
next
  case 4
  then show ?case by simp
qed

lemma b64val_b64char: "v < 64 \<Longrightarrow> b64val (b64char v) = Some v"
  by (auto simp: b64val_def b64char_def)

lemma b64char_plain: "v < 64 \<Longrightarrow> b64char v \<notin> set [9, 10, 12, 13, 32] \<and> b64char v \<noteq> 61"
  by (auto simp: b64char_def)

lemma mod4_Suc4: "Suc (Suc (Suc (Suc n))) mod 4 = n mod 4"
  by presburger

lemma b64_vals_length:
  "length (b64_vals bs) mod 4 \<noteq> Suc 0 \<and> (length (b64_vals bs) + b64_pad bs) mod 4 = 0"
  by (induction bs rule: b64_vals.induct) (simp_all add: b64_pad_simps mod4_Suc4)

lemma b64_pad_cases: "b64_pad bs = 0 \<or> b64_pad bs = Suc 0 \<or> b64_pad bs = Suc (Suc 0)"
proof -
  have "b64_pad bs < 3" by (simp add: b64_pad_def)
  then show ?thesis by (cases "b64_pad bs" rule: nat.exhaust) (auto simp: less_Suc_eq numeral_3_eq_3)
qed

lemma last_plain: "list_all (\<lambda>c. c \<noteq> p) xs \<Longrightarrow> \<not> (xs \<noteq> [] \<and> last xs = p)"
  by (induction xs) (auto split: if_splits)

lemma strip_padding_0: "list_all (\<lambda>c. c \<noteq> 61) xs \<Longrightarrow> strip_padding xs = xs"
  by (simp add: strip_padding_def last_plain)

lemma strip_padding_1: "list_all (\<lambda>c. c \<noteq> 61) xs \<Longrightarrow> strip_padding (xs @ [61]) = xs"
  by (simp add: strip_padding_def last_plain)

lemma strip_padding_2: "list_all (\<lambda>c. c \<noteq> 61) xs \<Longrightarrow> strip_padding (xs @ [61, 61]) = xs"
  by (simp add: strip_padding_def butlast_append last_plain)

lemma strip_padding_pad:
  assumes "list_all (\<lambda>c. c \<noteq> 61) xs" and "k = 0 \<or> k = Suc 0 \<or> k = Suc (Suc 0)"
  shows "strip_padding (xs @ replicate k 61) = xs"
  using assms(2) strip_padding_0 [OF assms(1)] strip_padding_1 [OF assms(1)]
    strip_padding_2 [OF assms(1)]
  by (elim disjE) simp_all

lemma map_filter_b64: "list_all (\<lambda>v. v < 64) vs \<Longrightarrow> List.map_filter b64val (map b64char vs) = vs"
  by (induction vs) (simp_all add: List.map_filter_simps b64val_b64char)

lemma atob_b64_enc:
  assumes "list_all (\<lambda>b. b < 256) bs"
  shows "atob (b64_enc bs) = Inr bs"
proof -
  let ?vs = "b64_vals bs"
  let ?xs = "map b64char ?vs"
  from assms have r: "list_all (\<lambda>v. v < 64) ?vs" by (rule b64_vals_range)
  then have plain: "list_all (\<lambda>c. c \<notin> set [9, 10, 12, 13, 32]) ?xs" "list_all (\<lambda>c. c \<noteq> 61) ?xs"
    and ok: "list_all (\<lambda>c. b64val c \<noteq> None) ?xs"
    using b64char_plain by (auto simp: list_all_iff b64val_b64char)
  have f: "filter (\<lambda>c. c \<notin> set [9, 10, 12, 13, 32]) (b64_enc bs) = b64_enc bs"
    using plain(1) by (auto simp: b64_enc_shape list_all_iff intro!: filter_True)
  have len: "length (b64_enc bs) mod 4 = 0" "length ?xs mod 4 \<noteq> Suc 0"
    using b64_vals_length [of bs] by (simp_all add: b64_enc_shape)
  have s: "strip_padding (b64_enc bs) = ?xs"
    unfolding b64_enc_shape using plain(2) b64_pad_cases by (rule strip_padding_pad)
  have "atob (b64_enc bs) = Inr (b64_dec (List.map_filter b64val ?xs))"
    unfolding atob_def f Let_def using len ok by (simp add: s)
  with r assms show ?thesis by (simp add: map_filter_b64 b64_dec_vals)
qed

text \<open>
  \<^verbatim>\<open>decodeURIComponent(escape(b))\<close> reads the UTF-8 octets of a well-formed string back
  into the string, one code point at a time.
\<close>

lemma escape_safe_ascii: "escape_safe c \<Longrightarrow> c < 128 \<and> c \<noteq> 37"
  by (auto simp: escape_safe_def is_alnum_def)

lemma escape_Cons: "escape (b # bs) = escape1 b @ escape bs"
  by (simp add: escape_def)

lemma escape_append: "escape (xs @ ys) = escape xs @ escape ys"
  by (simp add: escape_def)

lemma escape_high: "list_all (\<lambda>b. 128 \<le> b \<and> b < 256) bs \<Longrightarrow> escape bs = concat (map pct bs)"
proof (induction bs)
  case Nil
  then show ?case by (simp add: escape_def)
next
  case (Cons b bs)
  then have "\<not> escape_safe b" using escape_safe_ascii [of b] by auto
  with Cons show ?case by (simp add: escape_Cons escape1_def)
qed

lemma pct_append: "pct b @ r = 37 # hexdigit (b div 16) # hexdigit (b mod 16) # r"
  by (simp add: pct_def)

lemma cont_bytes_pcts:
  "list_all (\<lambda>b. 128 \<le> b \<and> b < 192) bs \<Longrightarrow>
     cont_bytes (length bs) (concat (map pct bs) @ R) = Some bs"
proof (induction bs)
  case Nil
  then show ?case by simp
next
  case (Cons b bs)
  then have b: "128 \<le> b" "b < 192" "b < 256"
    and IH: "cont_bytes (length bs) (concat (map pct bs) @ R) = Some bs" by simp_all
  have h: "hex2 (hexdigit (b div 16) # hexdigit (b mod 16) # concat (map pct bs) @ R) = Some b"
    using b(3) by (rule hex2_pct)
  show ?case
    using b IH by (simp add: pct_append h del: hex2.simps)
qed

lemma length_pcts: "length (concat (map pct bs)) = 3 * length bs"
  by (induction bs) (simp_all add: pct_def)

lemma decode_ascii:
  assumes "c < 128"
  shows "decodeURIComponent (escape1 c @ R) = prepend [c] (decodeURIComponent R)"
proof (cases "escape_safe c")
  case True
  with escape_safe_ascii [OF True] show ?thesis by (simp add: escape1_def)
next
  case False
  from assms have c: "c < 256" by simp
  have h: "hex2 (hexdigit (c div 16) # hexdigit (c mod 16) # R) = Some c"
    using c by (rule hex2_pct)
  from False assms c show ?thesis
    by (simp add: escape1_def pct_append h del: hex2.simps)
qed

lemma decode_sequence:
  assumes b: "128 \<le> b" "b < 256" and n: "lead_len b = Suc (length bs)"
    and bs: "list_all (\<lambda>x. 128 \<le> x \<and> x < 192) bs"
    and cp: "utf8_decode b bs = Some cp"
  shows "decodeURIComponent (concat (map pct (b # bs)) @ R)
         = prepend (utf16_encode cp) (decodeURIComponent R)"
proof -
  let ?rest = "concat (map pct bs) @ R"
  have h: "hex2 (hexdigit (b div 16) # hexdigit (b mod 16) # ?rest) = Some b"
    using b(2) by (rule hex2_pct)
  have c: "cont_bytes (length bs) ?rest = Some bs"
    using bs by (rule cont_bytes_pcts)
  have "decodeURIComponent (37 # hexdigit (b div 16) # hexdigit (b mod 16) # ?rest)
        = prepend (utf16_encode cp) (decodeURIComponent R)"
    using b(1) by (simp add: h n c cp length_pcts del: hex2.simps)
  then show ?thesis by (simp add: pct_append)
qed

lemma split3: "cp div 4096 * 4096 + cp div 64 mod 64 * 64 + cp mod 64 = (cp::nat)"
proof -
  have a: "cp div 4096 = cp div 64 div 64"
    using div_mult2_eq [of cp 64 64] by simp
  have e: "x * 4096 = x * 64 * 64" for x :: nat by simp
  have "cp div 64 div 64 * 4096 + cp div 64 mod 64 * 64 + cp mod 64
        = (cp div 64 div 64 * 64 + cp div 64 mod 64) * 64 + cp mod 64"
    by (simp only: e add_mult_distrib)
  also have "\<dots> = cp div 64 * 64 + cp mod 64" by (simp only: div_mult_mod_eq)
  also have "\<dots> = cp" by (rule div_mult_mod_eq)
  finally show ?thesis by (simp only: a)
qed

lemma split4:
  "cp div 262144 * 262144 + cp div 4096 mod 64 * 4096 + cp div 64 mod 64 * 64 + cp mod 64
   = (cp::nat)"
proof -
  let ?q = "cp div 64"
  have a: "cp div 4096 = ?q div 64" "cp div 262144 = ?q div 4096"
    using div_mult2_eq [of cp 64 64] div_mult2_eq [of cp 64 4096] by simp_all
  have e: "x * 262144 = x * 4096 * 64" "x * 4096 = x * 64 * 64" for x :: nat by simp_all
  have "?q div 4096 * 262144 + ?q div 64 mod 64 * 4096 + ?q mod 64 * 64 + cp mod 64
        = (?q div 4096 * 4096 + ?q div 64 mod 64 * 64 + ?q mod 64) * 64 + cp mod 64"
    unfolding e(1) by (simp only: e(2) add_mult_distrib)
  also have "\<dots> = ?q * 64 + cp mod 64" by (simp only: split3)
  also have "\<dots> = cp" by (rule div_mult_mod_eq)
  finally show ?thesis by (simp only: a)
qed

lemma decode_2:
  assumes "128 \<le> cp" "cp < 2048"
  shows "utf8_decode (192 + cp div 64) [128 + cp mod 64] = Some cp"
    "lead_len (192 + cp div 64) = Suc (length [128 + cp mod 64])"
    "list_all (\<lambda>x. 128 \<le> x \<and> x < 192) [128 + cp mod 64]"
    "192 + cp div 64 < 256"
proof -
  from assms(2) have d: "cp div 64 < 32" by (simp add: div_less_iff_less_mult)
  have "(192 + cp div 64 - 192) * 64 + (128 + cp mod 64 - 128) = cp" by simp
  with assms(1) show "utf8_decode (192 + cp div 64) [128 + cp mod 64] = Some cp"
    by (simp only: utf8_decode.simps Let_def if_True)
  from d show "lead_len (192 + cp div 64) = Suc (length [128 + cp mod 64])"
    by (simp add: lead_len_def)
  show "list_all (\<lambda>x. 128 \<le> x \<and> x < 192) [128 + cp mod 64]" by simp
  from d show "192 + cp div 64 < 256" by simp
qed

lemma decode_3:
  assumes "2048 \<le> cp" "cp < 65536" "\<not> (55296 \<le> cp \<and> cp \<le> 57343)"
  shows "utf8_decode (224 + cp div 4096) [128 + cp div 64 mod 64, 128 + cp mod 64] = Some cp"
    "lead_len (224 + cp div 4096) = Suc (length [128 + cp div 64 mod 64, 128 + cp mod 64])"
    "list_all (\<lambda>x. 128 \<le> x \<and> x < 192) [128 + cp div 64 mod 64, 128 + cp mod 64]"
    "224 + cp div 4096 < 256"
proof -
  from assms(2) have d: "cp div 4096 < 16" by (simp add: div_less_iff_less_mult)
  have "(224 + cp div 4096 - 224) * 4096 + (128 + cp div 64 mod 64 - 128) * 64
        + (128 + cp mod 64 - 128) = cp"
    using split3 [of cp] by simp
  with assms(1,3)
  show "utf8_decode (224 + cp div 4096) [128 + cp div 64 mod 64, 128 + cp mod 64] = Some cp"
    by (simp only: utf8_decode.simps Let_def simp_thms if_True)
  from d show "lead_len (224 + cp div 4096)
               = Suc (length [128 + cp div 64 mod 64, 128 + cp mod 64])"
    by (simp add: lead_len_def)
  show "list_all (\<lambda>x. 128 \<le> x \<and> x < 192) [128 + cp div 64 mod 64, 128 + cp mod 64]" by simp
  from d show "224 + cp div 4096 < 256" by simp
qed

lemma decode_4:
  assumes "65536 \<le> cp" "cp < 1114112"
  shows "utf8_decode (240 + cp div 262144)
           [128 + cp div 4096 mod 64, 128 + cp div 64 mod 64, 128 + cp mod 64] = Some cp"
    "lead_len (240 + cp div 262144)
     = Suc (length [128 + cp div 4096 mod 64, 128 + cp div 64 mod 64, 128 + cp mod 64])"
    "list_all (\<lambda>x. 128 \<le> x \<and> x < 192)
       [128 + cp div 4096 mod 64, 128 + cp div 64 mod 64, 128 + cp mod 64]"
    "240 + cp div 262144 < 256"
proof -
  from assms(2) have d: "cp div 262144 < 5" by (simp add: div_less_iff_less_mult)
  from assms(2) have le: "cp \<le> 1114111" by simp
  have "(240 + cp div 262144 - 240) * 262144 + (128 + cp div 4096 mod 64 - 128) * 4096
        + (128 + cp div 64 mod 64 - 128) * 64 + (128 + cp mod 64 - 128) = cp"
    using split4 [of cp] by simp
  with assms(1) le
  show "utf8_decode (240 + cp div 262144)
          [128 + cp div 4096 mod 64, 128 + cp div 64 mod 64, 128 + cp mod 64] = Some cp"
    by (simp only: utf8_decode.simps Let_def simp_thms if_True)
  from d show "lead_len (240 + cp div 262144)
     = Suc (length [128 + cp div 4096 mod 64, 128 + cp div 64 mod 64, 128 + cp mod 64])"
    by (simp add: lead_len_def)
  show "list_all (\<lambda>x. 128 \<le> x \<and> x < 192)
       [128 + cp div 4096 mod 64, 128 + cp div 64 mod 64, 128 + cp mod 64]" by simp
  from d show "240 + cp div 262144 < 256" by simp
qed

lemma high_bytes:
  "128 \<le> b \<Longrightarrow> b < 256 \<Longrightarrow> list_all (\<lambda>x. 128 \<le> x \<and> x < 192) bs \<Longrightarrow>
     list_all (\<lambda>b. 128 \<le> b \<and> b < (256::nat)) (b # bs)"
  by (fastforce simp: list_all_iff)

lemma decode_code_point:
  assumes "scalar cp"
  shows "decodeURIComponent (escape (utf8_encode cp) @ R)
         = prepend (utf16_encode cp) (decodeURIComponent R)"
proof -
  from assms have lt: "cp < 1114112" and ns: "\<not> (55296 \<le> cp \<and> cp \<le> 57343)"
    by (simp_all add: scalar_def)
  consider (one) "cp < 128" | (two) "128 \<le> cp" "cp < 2048"
    | (three) "2048 \<le> cp" "cp < 65536" | (four) "65536 \<le> cp"
    by linarith
  then show ?thesis
  proof cases
    case one
    then show ?thesis
      using decode_ascii [of cp R] by (simp add: utf8_encode_def utf16_encode_def escape_def)
  next
    case two
    let ?b = "192 + cp div 64" and ?bs = "[128 + cp mod 64]"
    have e: "utf8_encode cp = ?b # ?bs" using two by (simp add: utf8_encode_def)
    have "list_all (\<lambda>b. 128 \<le> b \<and> b < 256) (?b # ?bs)"
      by (rule high_bytes [OF _ decode_2(4,3) [OF two]]) simp
    then have "escape (?b # ?bs) = concat (map pct (?b # ?bs))" by (rule escape_high)
    moreover have "decodeURIComponent (concat (map pct (?b # ?bs)) @ R)
          = prepend (utf16_encode cp) (decodeURIComponent R)"
      by (rule decode_sequence [OF _ decode_2(4,2,3,1) [OF two]]) simp
    ultimately show ?thesis by (simp only: e)
  next
    case three
    let ?b = "224 + cp div 4096" and ?bs = "[128 + cp div 64 mod 64, 128 + cp mod 64]"
    have e: "utf8_encode cp = ?b # ?bs" using three by (simp add: utf8_encode_def)
    have "list_all (\<lambda>b. 128 \<le> b \<and> b < 256) (?b # ?bs)"
      by (rule high_bytes [OF _ decode_3(4,3) [OF three ns]]) simp
    then have "escape (?b # ?bs) = concat (map pct (?b # ?bs))" by (rule escape_high)
    moreover have "decodeURIComponent (concat (map pct (?b # ?bs)) @ R)
          = prepend (utf16_encode cp) (decodeURIComponent R)"
      by (rule decode_sequence [OF _ decode_3(4,2,3,1) [OF three ns]]) simp
    ultimately show ?thesis by (simp only: e)
  next
    case four
    let ?b = "240 + cp div 262144"
    let ?bs = "[128 + cp div 4096 mod 64, 128 + cp div 64 mod 64, 128 + cp mod 64]"
    have e: "utf8_encode cp = ?b # ?bs" using four by (simp add: utf8_encode_def)
    have "list_all (\<lambda>b. 128 \<le> b \<and> b < 256) (?b # ?bs)"
      by (rule high_bytes [OF _ decode_4(4,3) [OF four lt]]) simp
    then have "escape (?b # ?bs) = concat (map pct (?b # ?bs))" by (rule escape_high)
    moreover have "decodeURIComponent (concat (map pct (?b # ?bs)) @ R)
          = prepend (utf16_encode cp) (decodeURIComponent R)"
      by (rule decode_sequence [OF _ decode_4(4,2,3,1) [OF four lt]]) simp
    ultimately show ?thesis by (simp only: e)
  qed
qed

lemma pair_utf16:
  assumes "is_high_surrogate c" "is_low_surrogate d"
  shows "utf16_encode ((c - 55296) * 1024 + (d - 56320) + 65536) = [c, d]"
proof -
  from assms have c: "55296 \<le> c" and d: "56320 \<le> d" "d - 56320 < 1024"
    by (auto simp: is_high_surrogate_def is_low_surrogate_def)
  have "((c - 55296) * 1024 + (d - 56320)) div 1024 = c - 55296"
    "((c - 55296) * 1024 + (d - 56320)) mod 1024 = d - 56320"
    using d(2) by (rule pack_div, rule pack_mod)
  with c d(1) show ?thesis by (simp add: utf16_encode_def)
qed

lemma pair_scalar:
  "is_high_surrogate c \<Longrightarrow> is_low_surrogate d \<Longrightarrow>
     scalar ((c - 55296) * 1024 + (d - 56320) + 65536)"
  using pair_bound [of c d] by (simp add: scalar_def)

lemma unit_scalar:
  "\<not> is_high_surrogate c \<Longrightarrow> \<not> is_low_surrogate c \<Longrightarrow> c < 65536 \<Longrightarrow> scalar c"
  by (auto simp: scalar_def is_high_surrogate_def is_low_surrogate_def)

lemma escape_decode:
  "well_formed s \<Longrightarrow> decodeURIComponent (escape (utf8_bytes s)) = Inr s"
proof (induction s rule: well_formed.induct)
  case 1
  then show ?case by (simp add: escape_def)
next
  case (2 c cs)
  from "2.prems" have nl: "\<not> is_low_surrogate c" by (auto split: if_splits)
  show ?case
  proof (cases "is_high_surrogate c")
    case True
    with "2.prems" obtain d ds where cs: "cs = d # ds" and d: "is_low_surrogate d"
      and wf: "well_formed ds"
      by (auto split: if_splits list.splits)
    from "2.IH"(1) [OF nl True cs] wf
    have IH: "decodeURIComponent (escape (utf8_bytes ds)) = Inr ds" by simp
    let ?cp = "(c - 55296) * 1024 + (d - 56320) + 65536"
    have "decodeURIComponent (escape (utf8_encode ?cp) @ escape (utf8_bytes ds))
          = prepend (utf16_encode ?cp) (decodeURIComponent (escape (utf8_bytes ds)))"
      using pair_scalar [OF True d] by (rule decode_code_point)
    with True cs IH pair_utf16 [OF True d] show ?thesis
      by (simp add: escape_append prepend_def)
  next
    case False
    with "2.prems" have c: "c < 65536" and wf: "well_formed cs"
      by (auto split: if_splits)
    from "2.IH"(2) [OF nl False] wf
    have IH: "decodeURIComponent (escape (utf8_bytes cs)) = Inr cs" by simp
    have "decodeURIComponent (escape (utf8_encode c) @ escape (utf8_bytes cs))
          = prepend (utf16_encode c) (decodeURIComponent (escape (utf8_bytes cs)))"
      using unit_scalar [OF False nl c] by (rule decode_code_point)
    with False c IH show ?thesis
      by (simp add: escape_append prepend_def utf16_encode_def)
  qed
qed

text \<open>
  Hence \<^verbatim>\<open>base64ToUtf8\<close> undoes \<^verbatim>\<open>utf8ToBase64\<close> on every string without a lone
  surrogate, and \<^verbatim>\<open>utf8ToBase64\<close> does not throw on such a string.
\<close>

lemma utf8ToBase64_bytes:
  assumes "well_formed s"
  shows "utf8ToBase64 s = Inr (b64_enc (utf8_bytes s))"
proof -
  from assms obtain E where E: "encodeURIComponent s = Inr E" "unescape E = utf8_bytes s"
    using encode_unescape by blast
  have "list_all (\<lambda>c. c \<le> 255) (utf8_bytes s)"
    using utf8_bytes_range [OF assms] by (auto simp: list_all_iff)
  with E show ?thesis by (simp add: utf8ToBase64_def btoa_def)
qed

lemma published_content_decodes:
  assumes "well_formed s"
  shows "base64ToUtf8 (b64_enc (utf8_bytes s)) = Inr s"
proof -
  have "atob (b64_enc (utf8_bytes s)) = Inr (utf8_bytes s)"
    using utf8_bytes_range [OF assms] by (rule atob_b64_enc)
  then show ?thesis
    by (simp add: base64ToUtf8_def escape_decode [OF assms])
qed

lemma base64_round_trip:
  "well_formed s \<Longrightarrow> \<exists>b. utf8ToBase64 s = Inr b \<and> base64ToUtf8 b = Inr s"
  using utf8ToBase64_bytes published_content_decodes by blast

text \<open>
  The queued path (\<^verbatim>\<open>commitToGitHub\<close>) and the unnamed service file send this encoding;
  \<^verbatim>\<open>btoa\<close> alone agrees with it on ASCII text.
\<close>

lemma commitToGitHub_try_encoding:
  assumes "well_formed (js_string (content jb))"
  shows "commitToGitHub_try nw jb =
     (case resolve_branch nw jb of
        Inl e \<Rightarrow> Inl e
      | Inr br \<Rightarrow>
          (case lookup_sha nw jb br of
             Inl e \<Rightarrow> Inl e
           | Inr sh \<Rightarrow>
               send_commit nw
                 (commit_request jb (b64_enc (utf8_bytes (js_string (content jb)))) br sh)))"
  by (simp add: commitToGitHub_try_def utf8ToBase64_bytes [OF assms] split: sum.splits)

lemma createOrUpdateFile_utf8_encoding:
  assumes "well_formed cont"
  shows "createOrUpdateFile_utf8 nw tok ow rp pa cont m br =
     put_file nw tok ow rp pa (b64_enc (utf8_bytes cont)) m br
       (existing_sha (getFile_utf8 nw tok ow rp pa br))"
  by (simp add: createOrUpdateFile_utf8_def Let_def utf8ToBase64_bytes [OF assms])

lemma ascii_utf8_bytes: "list_all (\<lambda>c. c < 128) s \<Longrightarrow> well_formed s \<and> utf8_bytes s = s"
proof (induction s)
  case Nil
  then show ?case by simp
next
  case (Cons c s)
  then have c: "c < 128" and IH: "well_formed s" "utf8_bytes s = s" by simp_all
  from c have "\<not> is_high_surrogate c" "\<not> is_low_surrogate c" "c < 65536"
    by (simp_all add: is_high_surrogate_def is_low_surrogate_def)
  with IH c show ?case by (simp add: utf8_encode_ascii)
qed

lemma ascii_publish_agrees:
  assumes "list_all (\<lambda>c. c < 128) s"
  shows "btoa s = utf8ToBase64 s"
proof -
  from assms have "list_all (\<lambda>c. c \<le> 255) s" by (auto simp: list_all_iff)
  then have "btoa s = Inr (b64_enc s)" by (simp add: btoa_def)
  with ascii_utf8_bytes [OF assms] show ?thesis by (simp add: utf8ToBase64_bytes)
qed

subsection \<open>The encoding of published content\<close>

lemma btoa_cafe: "btoa cafe = Inr (ascii ''Y2Fm6Q=='')"
  by (simp add: codec_defs cafe_def)

lemma createOrUpdateFile_cafe:
  "createOrUpdateFile nw tok ow rp pa cafe m br =
     put_file nw tok ow rp pa (ascii ''Y2Fm6Q=='') m br (existing_sha (getFile nw tok ow rp pa br))"
  by (simp add: createOrUpdateFile_def btoa_cafe Let_def)

lemma createOrUpdateFile_utf8_cafe:
  "createOrUpdateFile_utf8 nw tok ow rp pa cafe m br =
     put_file nw tok ow rp pa (ascii ''Y2Fmw6k='') m br (existing_sha (getFile_utf8 nw tok ow rp pa br))"
  by (simp add: createOrUpdateFile_utf8_def Let_def codec_defs cafe_def)

text \<open>
  C2. The claim fails on the interactive path of \<^verbatim>\<open>services/github.js\<close>, whose
  \<^verbatim>\<open>createOrUpdateFile\<close> encodes with \<^verbatim>\<open>btoa(content)\<close>. For the note \<open>cafe\<close>, the
  word written with an acute accent (code units 99, 97, 102, 233), it sends the base64 of the four octets 63 61 66 E9, which
  are not the UTF-8 octets of the note and which \<^verbatim>\<open>base64ToUtf8\<close> refuses; for a note
  with a character above U+00FF (here U+2615) it throws before the \<^verbatim>\<open>PUT\<close> is sent.
  The queued path and the unnamed service file encode the same note with
  \<^verbatim>\<open>utf8ToBase64\<close>, whose output decodes to the note again, as it does for every
  string without a lone surrogate (\<open>base64_round_trip\<close>).
\<close>

theorem interactive_publish_corrupts_non_ascii:
  "createOrUpdateFile nw tok ow rp pa cafe m br =
     put_file nw tok ow rp pa (ascii ''Y2Fm6Q=='') m br (existing_sha (getFile nw tok ow rp pa br)) \<and>
   atob (ascii ''Y2Fm6Q=='') = Inr [99, 97, 102, 233] \<and>
   base64ToUtf8 (ascii ''Y2Fm6Q=='') = Inl (URIError ''URI malformed'') \<and>
   createOrUpdateFile nw tok ow rp pa hot_beverage m br =
     Inl (InvalidCharacterError ''The string to be encoded contains characters outside of the Latin1 range.'') \<and>
   createOrUpdateFile_utf8 nw tok ow rp pa cafe m br =
     put_file nw tok ow rp pa (ascii ''Y2Fmw6k='') m br
       (existing_sha (getFile_utf8 nw tok ow rp pa br)) \<and>
   utf8ToBase64 cafe = Inr (ascii ''Y2Fmw6k='') \<and>
   atob (ascii ''Y2Fmw6k='') = Inr [99, 97, 102, 195, 169] \<and>
   base64ToUtf8 (ascii ''Y2Fmw6k='') = Inr cafe"
proof -
  have 1: "atob (ascii ''Y2Fm6Q=='') = Inr [99, 97, 102, 233]"
    by (simp add: codec_defs)
  have 2: "base64ToUtf8 (ascii ''Y2Fm6Q=='') = Inl (URIError ''URI malformed'')"
    by (simp add: codec_defs)
  have 3: "createOrUpdateFile nw tok ow rp pa hot_beverage m br =
     Inl (InvalidCharacterError ''The string to be encoded contains characters outside of the Latin1 range.'')"
    by (simp add: createOrUpdateFile_def btoa_def hot_beverage_def Let_def)
  have 4: "utf8ToBase64 cafe = Inr (ascii ''Y2Fmw6k='')"
    by (simp add: codec_defs cafe_def)
  have 5: "atob (ascii ''Y2Fmw6k='') = Inr [99, 97, 102, 195, 169]"
    by (simp add: codec_defs)
  have 6: "base64ToUtf8 (ascii ''Y2Fmw6k='') = Inr cafe"
    by (simp add: codec_defs cafe_def)
  from createOrUpdateFile_cafe createOrUpdateFile_utf8_cafe 1 2 3 4 5 6 show ?thesis by blast
qed

subsection \<open>The enqueue of a publish that failed offline\<close>

lemma processTemplate_path: "processTemplate now0 ''notes/{{date}}.md'' = ''notes/2024-05-06.md''"
  by (simp add: processTemplate_def now0_def Let_def)

lemma saveToGitHub_failure:
  assumes "gh_token (github s) \<noteq> []" "\<not> blank (editor s)"
    and "publish nw (gh_token (github s)) (gh_owner (github s)) (gh_repo (github s))
           (processTemplate now (gh_pathTemplate (github s))) (editor s)
           (processTemplate now (gh_commitMessage (github s))) (gh_branch (github s)) = Inl err"
  shows "saveToGitHub publish nw now s =
           (showNotification (''GitHub save failed: '' @ message err) ''error''
              (showNotification ''Saving to GitHub...'' ''info'' s),
            if onLine s
            then None
            else Some (DataError ''Evaluating the object store's key path did not yield a value.''))"
  using assms
  by (simp add: saveToGitHub_def Let_def showNotification_def addToSyncQueue_def store_put_def
      queued_job_def)

lemma createOrUpdateFile_down:
  "list_all (\<lambda>c. c \<le> 255) cont \<Longrightarrow>
     createOrUpdateFile nw_down tok ow rp pa cont m br = Inl (TypeError ''Failed to fetch'')"
  by (simp add: createOrUpdateFile_def Let_def btoa_def put_file_def fetch_def nw_down_def)

text \<open>
  C1. The claim fails when the publish fails offline. \<^verbatim>\<open>saveToGitHub\<close> enqueues the
  object \<^verbatim>\<open>{ type, content, timestamp }\<close>, which has no \<^verbatim>\<open>id\<close>, no \<^verbatim>\<open>status\<close> and no
  \<^verbatim>\<open>createdAt\<close>; \<^verbatim>\<open>put\<close> throws a \<^verbatim>\<open>DataError\<close> on it, so nothing is written, the
  promise of \<^verbatim>\<open>saveToGitHub\<close> rejects, and the user only sees the failure of the save.
  Online, the same failure is reported and nothing is enqueued, as the claim says.
\<close>

theorem offline_publish_failure_is_dropped:
  "saveToGitHub createOrUpdateFile nw_down now0 offline_draft =
     (offline_draft\<lparr>notifications := [(''Saving to GitHub...'', ''info''),
                                      (''GitHub save failed: Failed to fetch'', ''error'')]\<rparr>,
      Some (DataError ''Evaluating the object store's key path did not yield a value.'')) \<and>
   \<not> onLine offline_draft \<and>
   queueStore (fst (saveToGitHub createOrUpdateFile nw_down now0 offline_draft)) = [] \<and>
   job_id (queued_job (editor offline_draft) now0) = None \<and>
   status (queued_job (editor offline_draft) now0) = None \<and>
   createdAt (queued_job (editor offline_draft) now0) = None \<and>
   saveToGitHub createOrUpdateFile nw_down now0 (offline_draft\<lparr>onLine := True\<rparr>) =
     (offline_draft\<lparr>onLine := True,
                    notifications := [(''Saving to GitHub...'', ''info''),
                                      (''GitHub save failed: Failed to fetch'', ''error'')]\<rparr>,
      None)"
proof -
  let ?on = "offline_draft\<lparr>onLine := True\<rparr>"
  have tok': "gh_token (github ?on) \<noteq> []"
    by (simp add: offline_draft_def)
  have ed': "\<not> blank (editor ?on)"
    by (simp add: offline_draft_def blank_def js_whitespace_def ascii_def)
  have lat': "list_all (\<lambda>c. c \<le> 255) (editor ?on)"
    by (simp add: offline_draft_def ascii_def)
  have n': "notifications ?on = []"
    by (simp add: offline_draft_def startup_defs)
  have online: "saveToGitHub createOrUpdateFile nw_down now0 ?on =
     (?on\<lparr>notifications := [(''Saving to GitHub...'', ''info''),
                              (''GitHub save failed: Failed to fetch'', ''error'')]\<rparr>, None)"
    using saveToGitHub_failure [where publish = createOrUpdateFile and nw = nw_down and s = ?on
      and now = now0, OF tok' ed' createOrUpdateFile_down [OF lat']] n'
    by (simp add: showNotification_def)
  have tok: "gh_token (github offline_draft) \<noteq> []"
    by (simp add: offline_draft_def)
  have ed: "\<not> blank (editor offline_draft)"
    by (simp add: offline_draft_def blank_def js_whitespace_def ascii_def)
  have lat: "list_all (\<lambda>c. c \<le> 255) (editor offline_draft)"
    by (simp add: offline_draft_def ascii_def)
  have off: "\<not> onLine offline_draft"
    by (simp add: offline_draft_def startup_defs)
  have n: "notifications offline_draft = []"
    by (simp add: offline_draft_def startup_defs)
  have q: "queueStore offline_draft = []"
    by (simp add: offline_draft_def startup_defs)
  from saveToGitHub_failure [where publish = createOrUpdateFile and nw = nw_down and s = offline_draft
      and now = now0, OF tok ed createOrUpdateFile_down [OF lat]] off n q
  show ?thesis
    using online by (simp add: showNotification_def queued_job_def)
qed

subsection \<open>The destination settings across a restart\<close>

text \<open>
  C9. The claim fails. \<^verbatim>\<open>saveGitHubSettings\<close> writes the destination under the key
  \<^verbatim>\<open>github-settings\<close>, with an empty token whatever the state of the remember box
  (the new \<^verbatim>\<open>this.github\<close> has no \<^verbatim>\<open>rememberToken\<close>), while \<^verbatim>\<open>restoreNote\<close> reads the
  key \<^verbatim>\<open>gitwrite-github\<close>, which nothing writes. After a restart, and after a reload
  of the page, the destination is the default one again.
\<close>

theorem saved_settings_are_not_restored:
  "github (saveGitHubSettings filled_form fresh_app) =
     \<lparr>gh_token = ''ghp_x'', gh_owner = ''alice'', gh_repo = ''notes'', gh_branch = ''dev'',
      gh_pathTemplate = ''journal/{{date}}.md'', gh_commitMessage = ''Journal {{date}}'',
      gh_rememberToken = None\<rparr> \<and>
   localStorage (saveGitHubSettings filled_form fresh_app) ''github-settings'' =
     Some \<lparr>j_token = Some [], j_owner = Some ''alice'', j_repo = Some ''notes'',
           j_branch = Some ''dev'', j_pathTemplate = Some ''journal/{{date}}.md'',
           j_commitMessage = Some ''Journal {{date}}'', j_rememberToken = None\<rparr> \<and>
   localStorage (saveGitHubSettings filled_form fresh_app) ''gitwrite-github'' = None \<and>
   github (restart (saveGitHubSettings filled_form fresh_app)) = default_github \<and>
   github (reload (saveGitHubSettings filled_form fresh_app)) = default_github \<and>
   gh_owner default_github = [] \<and> gh_token default_github = []"
  by (simp add: saveGitHubSettings_def filled_form_def fresh_app_def startup_defs Let_def
      showNotification_def restart_def reload_def)

subsection \<open>At most one drain, and the flag that guards it\<close>

lemma saveToGitHub_frame:
  "isSyncing (fst (saveToGitHub publish nw now s)) = isSyncing s"
  "drains (fst (saveToGitHub publish nw now s)) = drains s"
  "trace (fst (saveToGitHub publish nw now s)) = trace s"
  by (simp_all add: saveToGitHub_def showNotification_def addToSyncQueue_def loadSyncQueue_def
      Let_def split: sum.splits)

lemma saveGitHubSettings_frame:
  "isSyncing (saveGitHubSettings f s) = isSyncing s"
  "drains (saveGitHubSettings f s) = drains s"
  "trace (saveGitHubSettings f s) = trace s"
  by (simp_all add: saveGitHubSettings_def showNotification_def Let_def)

lemma drains_cases:
  assumes "length (drains s) \<le> 1"
  obtains "drains s = []" | a where "drains s = [a]"
  using assms by (cases "drains s") (auto simp: length_Suc_conv)

lemma drain_inv_start: "drain_inv (new_GitWrite online st ls ss)"
  by (simp add: drain_inv_def startup_defs split: option.splits)

lemma drain_inv_processSyncQueue: "drain_inv s \<Longrightarrow> drain_inv (processSyncQueue s)"
  by (auto simp: drain_inv_def calm_def processSyncQueue_def updateSyncIndicator_def rejected_def
      split: list.splits)

lemma drain_inv_step: "drain_inv s \<Longrightarrow> drain_inv (step e s)"
proof (cases e)
  case StartupTimer
  assume "drain_inv s"
  then show ?thesis using StartupTimer by (simp add: drain_inv_processSyncQueue)
next
  case Online
  assume "drain_inv s"
  then have "drain_inv (updateSyncIndicator ''online'' (s\<lparr>onLine := True\<rparr>))"
    by (simp add: drain_inv_def calm_def updateSyncIndicator_def)
  then show ?thesis using Online by (simp add: handleOnline_def drain_inv_processSyncQueue)
next
  case Offline
  assume "drain_inv s"
  then show ?thesis using Offline
    by (simp add: drain_inv_def calm_def handleOffline_def updateSyncIndicator_def)
next
  case SyncNow
  assume a: "drain_inv s"
  then have "drain_inv (showNotification ''No internet connection'' ''error'' s)"
    by (simp add: drain_inv_def calm_def showNotification_def)
  with a show ?thesis using SyncNow by (simp add: syncNow_def drain_inv_processSyncQueue)
next
  case (CommitReturns i nw)
  assume a: "drain_inv s"
  then have "length (drains s) \<le> 1" by (simp add: drain_inv_def)
  then show ?thesis
  proof (cases rule: drains_cases)
    case 1
    with a CommitReturns show ?thesis by (simp add: commit_returns_def)
  next
    case (2 act)
    with a CommitReturns show ?thesis
      by (auto simp: commit_returns_def drain_inv_def calm_def remove_nth_def rejected_def
          split: activation.splits sum.splits option.splits)
  qed
next
  case (UpdateSettles i)
  assume a: "drain_inv s"
  then have "length (drains s) \<le> 1" by (simp add: drain_inv_def)
  then show ?thesis
  proof (cases rule: drains_cases)
    case 1
    with a UpdateSettles show ?thesis by (simp add: update_settles_def)
  next
    case (2 act)
    with a UpdateSettles show ?thesis
      by (auto simp: update_settles_def drain_inv_def calm_def remove_nth_def rejected_def
          notify_result_def showNotification_def loadSyncQueue_def updateSyncIndicator_def Let_def
          split: activation.splits sum.splits list.splits commit_result.splits)
  qed
next
  case LoadSucceeds
  assume "drain_inv s"
  then show ?thesis using LoadSucceeds
    by (simp add: drain_inv_def calm_def loadSyncQueue_onsuccess_def)
next
  case PurgeTimer
  assume "drain_inv s"
  then show ?thesis using PurgeTimer
    by (simp add: drain_inv_def calm_def clearCompletedJobs_def loadSyncQueue_def Let_def)
next
  case ForgetToken
  assume "drain_inv s"
  then show ?thesis using ForgetToken
    by (simp add: drain_inv_def calm_def forgetToken_def loadSyncQueue_def showNotification_def)
next
  case (Typed t)
  assume "drain_inv s"
  then show ?thesis using Typed
    by (simp add: drain_inv_def calm_def)
next
  case (SaveToGitHub publish nw now)
  assume "drain_inv s"
  then show ?thesis using SaveToGitHub
    by (simp add: drain_inv_def calm_def saveToGitHub_frame)
next
  case (SaveSettings f)
  assume "drain_inv s"
  then show ?thesis using SaveSettings
    by (simp add: drain_inv_def calm_def saveGitHubSettings_frame)
qed

lemma reachable_drain_inv: "reachable s \<Longrightarrow> drain_inv s"
  by (induction rule: reachable.induct) (simp_all add: drain_inv_start drain_inv_step)

lemma reachable_run: "reachable s \<Longrightarrow> reachable (run evs s)"
  unfolding run_def by (induction evs arbitrary: s) (auto intro: reachable.task)

lemma processSyncQueue_guard:
  "isSyncing s \<or> \<not> onLine s \<Longrightarrow> processSyncQueue s = s"
  by (simp add: processSyncQueue_def)

lemma processSyncQueue_twice: "processSyncQueue (processSyncQueue s) = processSyncQueue s"
  by (simp add: processSyncQueue_def updateSyncIndicator_def split: list.splits)

text \<open>
  C7. In every reachable state at most one call of \<^verbatim>\<open>processSyncQueue\<close> is suspended.
  A call made while a drain is active, while the flag is set or while connectivity is
  down returns the state as it is, whatever the queue and the store hold (it reads
  neither); a call right after a call changes nothing, so two calls in a row leave at
  most one active drain.
\<close>

theorem at_most_one_active_drain:
  "reachable s \<Longrightarrow>
     length (drains s) \<le> 1 \<and>
     (drains s \<noteq> [] \<or> isSyncing s \<or> \<not> onLine s \<longrightarrow>
        (\<forall>q st. processSyncQueue (s\<lparr>syncQueue := q, queueStore := st\<rparr>) =
                  s\<lparr>syncQueue := q, queueStore := st\<rparr>)) \<and>
     processSyncQueue (processSyncQueue s) = processSyncQueue s \<and>
     length (drains (processSyncQueue (processSyncQueue s))) \<le> 1"
proof -
  assume r: "reachable s"
  then have inv: "drain_inv s" by (rule reachable_drain_inv)
  have "reachable (processSyncQueue s)"
    using reachable.task [OF r, of StartupTimer] by simp
  then have "drain_inv (processSyncQueue s)" by (rule reachable_drain_inv)
  then have two: "length (drains (processSyncQueue (processSyncQueue s))) \<le> 1"
    by (simp add: processSyncQueue_twice drain_inv_def)
  have guard: "drains s \<noteq> [] \<or> isSyncing s \<or> \<not> onLine s \<longrightarrow>
        (\<forall>q st. processSyncQueue (s\<lparr>syncQueue := q, queueStore := st\<rparr>) =
                  s\<lparr>syncQueue := q, queueStore := st\<rparr>)"
    using inv by (auto simp: drain_inv_def processSyncQueue_def)
  from inv two guard show ?thesis
    by (simp add: drain_inv_def processSyncQueue_twice)
qed

lemma loaded_app_fields:
  "syncQueue loaded_app = sample_store" "queueStore loaded_app = sample_store"
  "isSyncing loaded_app = False" "onLine loaded_app = True" "drains loaded_app = []"
  "trace loaded_app = []" "loads loaded_app = 0"
  by (simp_all add: loaded_app_def startup_defs loadSyncQueue_onsuccess_def store_getAll_def)

lemma pending_sample: "filter is_pending sample_store = [job_a, job_d]"
  by (simp add: is_pending_def sample_defs)

lemma reachable_loaded: "reachable loaded_app"
  unfolding loaded_app_def by (intro reachable.task reachable.start wf_sample_store)

lemma reachable_started: "reachable started_app"
  unfolding started_app_def by (intro reachable.task reachable_loaded)

lemma started_app_fields:
  "drains started_app = [AwaitCommit job_a [job_d]]" "isSyncing started_app"
  "trace started_app = [Attempt job_a]" "queueStore started_app = sample_store"
  "onLine started_app" "syncQueue started_app = sample_store" "loads started_app = 0"
  by (simp_all add: started_app_def processSyncQueue_def loaded_app_fields pending_sample
      updateSyncIndicator_def)

theorem at_most_one_active_drain_witness:
  "reachable started_app \<and> drains started_app = [AwaitCommit job_a [job_d]] \<and>
   processSyncQueue started_app = started_app \<and>
   step SyncNow started_app = started_app \<and>
   step Online started_app = started_app\<lparr>syncIndicator := ''online''\<rparr>"
proof -
  from at_most_one_active_drain [OF reachable_started]
  have "\<forall>q st. processSyncQueue (started_app\<lparr>syncQueue := q, queueStore := st\<rparr>) =
                  started_app\<lparr>syncQueue := q, queueStore := st\<rparr>"
    by (simp add: started_app_fields)
  then have "processSyncQueue (started_app\<lparr>syncQueue := syncQueue started_app,
      queueStore := queueStore started_app\<rparr>) =
      started_app\<lparr>syncQueue := syncQueue started_app, queueStore := queueStore started_app\<rparr>"
    by blast
  then have same: "processSyncQueue started_app = started_app" by simp
  have now: "step SyncNow started_app = started_app"
    by (simp add: syncNow_def started_app_fields same)
  have on: "step Online started_app = started_app\<lparr>syncIndicator := ''online''\<rparr>"
    by (simp add: handleOnline_def updateSyncIndicator_def processSyncQueue_def
        started_app_fields)
  from same now on reachable_started show ?thesis
    by (simp add: started_app_fields)
qed

lemma job_ids:
  "job_id job_a = Some ''a''" "job_id job_b = Some ''b''" "job_id job_c = Some ''c''"
  "job_id job_d = Some ''d''"
  by (simp_all add: sample_defs)

lemma aborted_app_fields:
  "drains aborted_app = []" "isSyncing aborted_app" "queueStore aborted_app = []"
  "trace aborted_app = [Attempt job_a, Outcome job_a (Success accepted),
                        Rejected (GenericError ''Job not found'')]"
  by (simp_all add: aborted_app_def run_def forgetToken_def loadSyncQueue_def
      showNotification_def commit_returns_def update_settles_def started_app_fields
      commit_accept_a updateQueueJob_def store_get_def remove_nth_def job_ids)

lemma reachable_aborted: "reachable aborted_app"
  unfolding aborted_app_def by (intro reachable_run reachable_started)

text \<open>
  C6, as stated, fails: \<^verbatim>\<open>processSyncQueue\<close> has no handler around its loop, so a
  rejected \<^verbatim>\<open>updateQueueJob\<close> ends the drain with the flag still set. The store found
  at start-up holds the sample jobs (the store is persistent); a drain is started, and
  the token is forgotten (which clears the store) while its first commit is on the
  network: afterwards no drain is active, \<^verbatim>\<open>isSyncing\<close> is true, and every later call
  returns at the guard.
\<close>

theorem flag_stays_set_after_abort:
  "reachable aborted_app \<and> drains aborted_app = [] \<and> isSyncing aborted_app \<and>
   processSyncQueue aborted_app = aborted_app"
  using reachable_aborted by (simp add: aborted_app_fields processSyncQueue_def)

text \<open>
  C6, amended. In every reachable state: while a drain is active the flag is set, and as
  long as no drain has been ended by an exception the flag is set only while a drain is
  active. A call that passes the guard and selects a job sets the flag in its first
  step, before its first suspension; a call that returns early leaves the state as it
  is. The flag stays set while jobs of the batch remain, and is cleared only once the
  update of the last job has settled. When an update is rejected the drain ends and the
  flag stays set. The amended claim says nothing on the reload that follows the batch.
\<close>

theorem isSyncing_follows_the_drain:
  "reachable s \<Longrightarrow>
     (drains s \<noteq> [] \<longrightarrow> isSyncing s) \<and>
     (calm s \<and> isSyncing s \<longrightarrow> drains s \<noteq> []) \<and>
     (\<not> isSyncing s \<and> onLine s \<and> filter is_pending (syncQueue s) \<noteq> [] \<longrightarrow>
        isSyncing (processSyncQueue s) \<and> drains (processSyncQueue s) \<noteq> []) \<and>
     (isSyncing s \<or> \<not> onLine s \<or> filter is_pending (syncQueue s) = [] \<longrightarrow>
        processSyncQueue s = s) \<and>
     (\<forall>jb rest nw. drains s = [AwaitCommit jb rest] \<longrightarrow> isSyncing (commit_returns 0 nw s)) \<and>
     (\<forall>jb r nxt rest st.
        drains s = [AwaitUpdate jb r (nxt # rest)] \<and>
        updateQueueJob (job_id jb) (updates_of r) (queueStore s) = Inr st \<longrightarrow>
        isSyncing (update_settles 0 s) \<and> drains (update_settles 0 s) = [AwaitCommit nxt rest]) \<and>
     (\<forall>jb r st.
        drains s = [AwaitUpdate jb r []] \<and>
        updateQueueJob (job_id jb) (updates_of r) (queueStore s) = Inr st \<longrightarrow>
        \<not> isSyncing (update_settles 0 s) \<and> drains (update_settles 0 s) = []) \<and>
     (\<forall>jb r rest e.
        drains s = [AwaitUpdate jb r rest] \<and>
        updateQueueJob (job_id jb) (updates_of r) (queueStore s) = Inl e \<longrightarrow>
        isSyncing (update_settles 0 s) \<and> drains (update_settles 0 s) = [])"
proof -
  assume "reachable s"
  then have inv: "drain_inv s" by (rule reachable_drain_inv)
  have 1: "drains s \<noteq> [] \<longrightarrow> isSyncing s" and 2: "calm s \<and> isSyncing s \<longrightarrow> drains s \<noteq> []"
    using inv by (auto simp: drain_inv_def)
  have 3: "\<not> isSyncing s \<and> onLine s \<and> filter is_pending (syncQueue s) \<noteq> [] \<longrightarrow>
        isSyncing (processSyncQueue s) \<and> drains (processSyncQueue s) \<noteq> []"
    by (auto simp: processSyncQueue_def updateSyncIndicator_def split: list.splits)
  have 4: "isSyncing s \<or> \<not> onLine s \<or> filter is_pending (syncQueue s) = [] \<longrightarrow>
        processSyncQueue s = s"
    by (auto simp: processSyncQueue_def)
  have 5: "\<forall>jb rest nw. drains s = [AwaitCommit jb rest] \<longrightarrow> isSyncing (commit_returns 0 nw s)"
    using 1 by (auto simp: commit_returns_def split: sum.splits option.splits)
  have 6: "\<forall>jb r nxt rest st.
        drains s = [AwaitUpdate jb r (nxt # rest)] \<and>
        updateQueueJob (job_id jb) (updates_of r) (queueStore s) = Inr st \<longrightarrow>
        isSyncing (update_settles 0 s) \<and> drains (update_settles 0 s) = [AwaitCommit nxt rest]"
    using 1 by (auto simp: update_settles_def notify_result_def showNotification_def Let_def
        split: commit_result.splits)
  have 7: "\<forall>jb r st.
        drains s = [AwaitUpdate jb r []] \<and>
        updateQueueJob (job_id jb) (updates_of r) (queueStore s) = Inr st \<longrightarrow>
        \<not> isSyncing (update_settles 0 s) \<and> drains (update_settles 0 s) = []"
    by (auto simp: update_settles_def notify_result_def showNotification_def Let_def
        loadSyncQueue_def updateSyncIndicator_def remove_nth_def split: commit_result.splits)
  have 8: "\<forall>jb r rest e.
        drains s = [AwaitUpdate jb r rest] \<and>
        updateQueueJob (job_id jb) (updates_of r) (queueStore s) = Inl e \<longrightarrow>
        isSyncing (update_settles 0 s) \<and> drains (update_settles 0 s) = []"
    using 1 by (auto simp: update_settles_def remove_nth_def)
  from 1 2 3 4 5 6 7 8 show ?thesis by blast
qed

theorem isSyncing_follows_the_drain_witness:
  "reachable loaded_app \<and> \<not> isSyncing loaded_app \<and> onLine loaded_app \<and>
   isSyncing (processSyncQueue loaded_app) \<and> drains (processSyncQueue loaded_app) \<noteq> [] \<and>
   reachable started_app \<and> drains started_app = [AwaitCommit job_a [job_d]] \<and>
   isSyncing started_app \<and> isSyncing (commit_returns 0 nw_down started_app)"
proof -
  have p: "filter is_pending (syncQueue loaded_app) \<noteq> []"
    by (simp add: loaded_app_fields pending_sample)
  from isSyncing_follows_the_drain [OF reachable_loaded] p
  have a: "isSyncing (processSyncQueue loaded_app) \<and> drains (processSyncQueue loaded_app) \<noteq> []"
    by (simp add: loaded_app_fields)
  from isSyncing_follows_the_drain [OF reachable_started]
  have b: "isSyncing started_app \<and> isSyncing (commit_returns 0 nw_down started_app)"
    by (simp add: started_app_fields)
  from a b reachable_loaded reachable_started show ?thesis
    by (simp add: loaded_app_fields started_app_fields)
qed

subsection \<open>Which jobs a drain attempts\<close>

lemma attempts_append [simp]: "attempts (xs @ ys) = attempts xs @ attempts ys"
  by (simp add: attempts_def)

lemma attempts_simps [simp]:
  "attempts [] = []" "attempts (Attempt jb # tr) = jb # attempts tr"
  "attempts (Outcome jb r # tr) = attempts tr" "attempts (Rejected e # tr) = attempts tr"
  by (simp_all add: attempts_def)

lemma pending_inv_start: "pending_inv (new_GitWrite online st ls ss)"
  by (simp add: pending_inv_def startup_defs split: option.splits)

lemma pending_inv_processSyncQueue: "pending_inv s \<Longrightarrow> pending_inv (processSyncQueue s)"
proof -
  assume a: "pending_inv s"
  have "list_all is_pending (filter is_pending (syncQueue s))"
    by (simp add: list_all_iff)
  with a show ?thesis
    by (auto simp: pending_inv_def processSyncQueue_def updateSyncIndicator_def
        split: list.splits)
qed

lemma pending_inv_step: "drain_inv s \<Longrightarrow> pending_inv s \<Longrightarrow> pending_inv (step e s)"
proof (cases e)
  case StartupTimer
  assume "pending_inv s"
  then show ?thesis using StartupTimer by (simp add: pending_inv_processSyncQueue)
next
  case Online
  assume "pending_inv s"
  then have "pending_inv (updateSyncIndicator ''online'' (s\<lparr>onLine := True\<rparr>))"
    by (simp add: pending_inv_def updateSyncIndicator_def)
  then show ?thesis using Online by (simp add: handleOnline_def pending_inv_processSyncQueue)
next
  case Offline
  assume "pending_inv s"
  then show ?thesis using Offline
    by (simp add: pending_inv_def handleOffline_def updateSyncIndicator_def)
next
  case SyncNow
  assume a: "pending_inv s"
  then have "pending_inv (showNotification ''No internet connection'' ''error'' s)"
    by (simp add: pending_inv_def showNotification_def)
  with a show ?thesis using SyncNow by (simp add: syncNow_def pending_inv_processSyncQueue)
next
  case (CommitReturns i nw)
  assume a: "pending_inv s" and "drain_inv s"
  then have "length (drains s) \<le> 1" by (simp add: drain_inv_def)
  then show ?thesis
  proof (cases rule: drains_cases)
    case 1
    with a CommitReturns show ?thesis by (simp add: commit_returns_def)
  next
    case (2 act)
    with a CommitReturns show ?thesis
      by (auto simp: commit_returns_def pending_inv_def remove_nth_def
          split: activation.splits sum.splits option.splits)
  qed
next
  case (UpdateSettles i)
  assume a: "pending_inv s" and "drain_inv s"
  then have "length (drains s) \<le> 1" by (simp add: drain_inv_def)
  then show ?thesis
  proof (cases rule: drains_cases)
    case 1
    with a UpdateSettles show ?thesis by (simp add: update_settles_def)
  next
    case (2 act)
    with a UpdateSettles show ?thesis
      by (auto simp: update_settles_def pending_inv_def remove_nth_def
          notify_result_def showNotification_def loadSyncQueue_def updateSyncIndicator_def Let_def
          split: activation.splits sum.splits list.splits commit_result.splits)
  qed
next
  case LoadSucceeds
  assume "pending_inv s"
  then show ?thesis using LoadSucceeds
    by (simp add: pending_inv_def loadSyncQueue_onsuccess_def)
next
  case PurgeTimer
  assume "pending_inv s"
  then show ?thesis using PurgeTimer
    by (simp add: pending_inv_def clearCompletedJobs_def loadSyncQueue_def Let_def)
next
  case ForgetToken
  assume "pending_inv s"
  then show ?thesis using ForgetToken
    by (simp add: pending_inv_def forgetToken_def loadSyncQueue_def showNotification_def)
next
  case (Typed t)
  assume "pending_inv s"
  then show ?thesis using Typed
    by (simp add: pending_inv_def)
next
  case (SaveToGitHub publish nw now)
  assume "pending_inv s"
  then show ?thesis using SaveToGitHub
    by (simp add: pending_inv_def saveToGitHub_frame)
next
  case (SaveSettings f)
  assume "pending_inv s"
  then show ?thesis using SaveSettings
    by (simp add: pending_inv_def saveGitHubSettings_frame)
qed

lemma reachable_pending_inv: "reachable s \<Longrightarrow> pending_inv s"
proof (induction rule: reachable.induct)
  case (start st online ls ss)
  show ?case by (rule pending_inv_start)
next
  case (task s e)
  from task.hyps have "drain_inv s" by (rule reachable_drain_inv)
  with task.IH show ?case by (simp add: pending_inv_step)
qed

subsection \<open>One uninterrupted drain pass\<close>

lemma commitToGitHub_result_of: "commitToGitHub nw jb = Inr (result_of nw jb)"
  using commitToGitHub_Inr [of nw jb] by (auto simp: result_of_def)

lemma job_id_assign [simp]: "job_id (assign jb u) = job_id jb"
  by (simp add: assign_def)

lemma job_key_assign [simp]: "job_key (assign jb u) = job_key jb"
  by (simp add: job_key_def)

lemma upsert_present:
  assumes "wf_store st" "Some k \<in> set (map job_id st)" "job_id v = Some k"
  shows "upsert k v st = map (\<lambda>x. if job_id x = Some k then v else x) st"
  using assms
proof (induction st)
  case Nil
  then show ?case by simp
next
  case (Cons x xs)
  from Cons.prems(1) obtain k' where k': "job_id x = Some k'"
    by (auto simp: wf_store_def)
  from Cons.prems(1) have wf: "wf_store xs" and less: "\<forall>y \<in> set xs. k' < job_key y"
    and ids: "\<forall>y \<in> set xs. job_id y \<noteq> None"
    using k' by (auto simp: wf_store_def job_key_def list_all_iff)
  show ?case
  proof (cases "k = k'")
    case True
    have "\<forall>y \<in> set xs. job_id y \<noteq> Some k"
      using less True by (auto simp: job_key_def)
    then have "map (\<lambda>x. if job_id x = Some k then v else x) xs = xs"
      by (simp add: map_idI)
    with True k' show ?thesis by simp
  next
    case False
    with Cons.prems(2) k' have mem: "Some k \<in> set (map job_id xs)" by auto
    then obtain y where y: "y \<in> set xs" "job_id y = Some k" by auto
    with less have "k' < k" by (auto simp: job_key_def)
    then have "\<not> k < k'" by simp
    with False k' Cons.IH [OF wf mem Cons.prems(3)] show ?thesis by simp
  qed
qed

lemma store_get_present:
  assumes "Some k \<in> set (map job_id st)"
  shows "\<exists>jb. store_get k st = Some jb \<and> job_id jb = Some k \<and> jb \<in> set st"
proof -
  from assms obtain y where "y \<in> set st" "job_id y = Some k" by auto
  then have "find (\<lambda>j. job_id j = Some k) st \<noteq> None"
    by (auto simp: find_None_iff)
  then obtain jb where f: "find (\<lambda>j. job_id j = Some k) st = Some jb" by auto
  then have "job_id jb = Some k \<and> jb \<in> set st"
    by (auto simp: find_Some_iff)
  with f show ?thesis by (simp add: store_get_def)
qed

lemma updateQueueJob_present:
  assumes wf: "wf_store st" and mem: "job_id jb \<in> set (map job_id st)" and some: "job_id jb \<noteq> None"
  shows "updateQueueJob (job_id jb) (updates_of r) st = Inr (apply_result jb r st)"
proof -
  from some obtain k where k: "job_id jb = Some k" by auto
  with mem have m: "Some k \<in> set (map job_id st)" by simp
  from store_get_present [OF m] obtain x where
    x: "store_get k st = Some x" "job_id x = Some k" "x \<in> set st" by blast
  have d: "distinct (map job_id st)" using wf by (rule wf_store_ids)
  from d have "inj_on job_id (set st)" by (simp add: distinct_map)
  then have uniq: "\<forall>y \<in> set st. job_id y = Some k \<longrightarrow> y = x"
    using x by (metis inj_onD)
  have "upsert k (assign x (updates_of r)) st =
      map (\<lambda>y. if job_id y = Some k then assign x (updates_of r) else y) st"
    using wf m by (rule upsert_present) (simp add: x)
  also have "\<dots> = apply_result jb r st"
    unfolding apply_result_def using uniq k by (auto intro!: map_cong)
  finally show ?thesis
    using k x by (simp add: updateQueueJob_def store_put_def)
qed

lemma ids_apply_result [simp]: "map job_id (apply_result jb r st) = map job_id st"
  by (simp add: apply_result_def comp_def if_distrib [of job_id] cong: if_cong)

lemma keys_apply_result [simp]: "map job_key (apply_result jb r st) = map job_key st"
  by (simp add: apply_result_def comp_def if_distrib [of job_key] cong: if_cong)

lemma wf_store_alt:
  "wf_store st = (None \<notin> set (map job_id st) \<and> sorted_wrt (<) (map job_key st))"
  by (auto simp: wf_store_def list_all_iff image_iff) (metis not_None_eq)+

lemma wf_apply_result: "wf_store st \<Longrightarrow> wf_store (apply_result jb r st)"
  unfolding wf_store_alt by simp


lemma run_Nil [simp]: "run [] s = s"
  by (simp add: run_def)

lemma run_Cons [simp]: "run (e # evs) s = run evs (step e s)"
  by (simp add: run_def)

lemma run_append [simp]: "run (xs @ ys) s = run ys (run xs s)"
  by (simp add: run_def)

lemma pass_events_Cons [simp]:
  "pass_events (nw # nws) = CommitReturns 0 nw # UpdateSettles 0 # pass_events nws"
  by (simp add: pass_events_def)

lemma pass_events_Nil [simp]: "pass_events [] = []"
  by (simp add: pass_events_def)

lemma iteration:
  assumes d: "drains s = [AwaitCommit jb rest]" and wf: "wf_store (queueStore s)"
    and mem: "job_id jb \<in> set (map job_id (queueStore s))"
  shows "update_settles 0 (commit_returns 0 nw s) =
     (case rest of
        nxt # rest' \<Rightarrow>
          s\<lparr>queueStore := apply_result jb (result_of nw jb) (queueStore s),
            notifications := notifications s @ pass_notes [result_of nw jb],
            drains := [AwaitCommit nxt rest'],
            trace := trace s @ [Outcome jb (result_of nw jb), Attempt nxt]\<rparr>
      | [] \<Rightarrow>
          s\<lparr>queueStore := apply_result jb (result_of nw jb) (queueStore s),
            notifications := notifications s @ pass_notes [result_of nw jb],
            loads := Suc (loads s), isSyncing := False,
            syncIndicator := (if onLine s then ''online'' else ''offline''),
            drains := [],
            trace := trace s @ [Outcome jb (result_of nw jb)]\<rparr>)"
proof -
  from wf_store_ids(1) [OF wf] mem have some: "job_id jb \<noteq> None"
    by auto
  then obtain k where k: "job_id jb = Some k" by auto
  have c: "commit_returns 0 nw s =
      s\<lparr>drains := [AwaitUpdate jb (result_of nw jb) rest],
        trace := trace s @ [Outcome jb (result_of nw jb)]\<rparr>"
    using d k by (simp add: commit_returns_def commitToGitHub_result_of)
  have u: "updateQueueJob (job_id jb) (updates_of (result_of nw jb)) (queueStore s) =
      Inr (apply_result jb (result_of nw jb) (queueStore s))"
    using wf mem some by (rule updateQueueJob_present)
  show ?thesis
    unfolding c
    by (simp add: update_settles_def u notify_result_def showNotification_def pass_notes_def
        loadSyncQueue_def updateSyncIndicator_def remove_nth_def Let_def
        split: list.splits commit_result.splits)
qed

lemma pass_loop:
  assumes "drains s = [AwaitCommit jb rest]" "wf_store (queueStore s)"
    and "set (map job_id (jb # rest)) \<subseteq> set (map job_id (queueStore s))"
    and "length nws = Suc (length rest)"
  shows "queueStore (run (pass_events nws) s) =
           settle (zip (jb # rest) (map2 result_of nws (jb # rest))) (queueStore s) \<and>
         trace (run (pass_events nws) s) =
           trace s @ tl (pass_log (zip (jb # rest) (map2 result_of nws (jb # rest)))) \<and>
         notifications (run (pass_events nws) s) =
           notifications s @ pass_notes (map2 result_of nws (jb # rest)) \<and>
         drains (run (pass_events nws) s) = [] \<and>
         \<not> isSyncing (run (pass_events nws) s) \<and>
         loads (run (pass_events nws) s) = Suc (loads s) \<and>
         syncQueue (run (pass_events nws) s) = syncQueue s \<and>
         onLine (run (pass_events nws) s) = onLine s"
  using assms
proof (induction rest arbitrary: s jb nws)
  case Nil
  then obtain nw where nws: "nws = [nw]"
    by (cases nws) auto
  from Nil.prems have mem: "job_id jb \<in> set (map job_id (queueStore s))" by simp
  show ?case
    unfolding nws
    by (simp add: iteration [OF Nil.prems(1,2) mem] pass_log_def pass_notes_def)
next
  case (Cons nxt rest)
  then obtain nw nws' where nws: "nws = nw # nws'" and len: "length nws' = Suc (length rest)"
    by (cases nws) auto
  from Cons.prems have mem: "job_id jb \<in> set (map job_id (queueStore s))" by simp
  let ?s2 = "update_settles 0 (commit_returns 0 nw s)"
  have s2: "?s2 = s\<lparr>queueStore := apply_result jb (result_of nw jb) (queueStore s),
            notifications := notifications s @ pass_notes [result_of nw jb],
            drains := [AwaitCommit nxt rest],
            trace := trace s @ [Outcome jb (result_of nw jb), Attempt nxt]\<rparr>"
    by (simp add: iteration [OF Cons.prems(1,2) mem])
  have d2: "drains ?s2 = [AwaitCommit nxt rest]" by (simp add: s2)
  have wf2: "wf_store (queueStore ?s2)"
    using Cons.prems(2) by (simp add: s2 wf_apply_result)
  have sub2: "set (map job_id (nxt # rest)) \<subseteq> set (map job_id (queueStore ?s2))"
    using Cons.prems(3) by (simp add: s2)
  note IH = Cons.IH [OF d2 wf2 sub2 len]
  have run: "run (pass_events nws) s = run (pass_events nws') ?s2"
    by (simp add: nws)
  have f: "queueStore ?s2 = apply_result jb (result_of nw jb) (queueStore s)"
    "trace ?s2 = trace s @ [Outcome jb (result_of nw jb), Attempt nxt]"
    "notifications ?s2 = notifications s @ pass_notes [result_of nw jb]"
    "loads ?s2 = loads s" "syncQueue ?s2 = syncQueue s" "onLine ?s2 = onLine s"
    by (simp_all add: s2)
  from len obtain nw2 nws2 where nws2: "nws' = nw2 # nws2"
    by (cases nws') auto
  have shape: "tl (pass_log (zip (jb # nxt # rest) (map2 result_of nws (jb # nxt # rest)))) =
      [Outcome jb (result_of nw jb), Attempt nxt] @
      tl (pass_log (zip (nxt # rest) (map2 result_of nws' (nxt # rest))))"
    by (simp add: nws nws2 pass_log_def)
  have nts: "pass_notes (map2 result_of nws (jb # nxt # rest)) =
      pass_notes [result_of nw jb] @ pass_notes (map2 result_of nws' (nxt # rest))"
    by (simp add: nws pass_notes_def)
  have st: "settle (zip (jb # nxt # rest) (map2 result_of nws (jb # nxt # rest))) (queueStore s) =
      settle (zip (nxt # rest) (map2 result_of nws' (nxt # rest)))
        (apply_result jb (result_of nw jb) (queueStore s))"
    by (simp add: nws)
  show ?case
    unfolding run shape nts st using IH by (simp add: f)
qed


lemma attempts_pass_log:
  "length rs = length js \<Longrightarrow> attempts (pass_log (zip js rs)) = js"
  by (induction js rs rule: list_induct2') (simp_all add: pass_log_def attempts_def)

lemma calm_pass_log: "list_all (\<lambda>a. \<not> rejected a) (pass_log jrs)"
  by (induction jrs) (auto simp: pass_log_def rejected_def)

lemma drain_pass_effect:
  assumes wf: "wf_store (queueStore s)" and mirror: "syncQueue s = queueStore s"
    and idle: "\<not> isSyncing s" "drains s = []" and on: "onLine s"
    and len: "length nws = length (filter is_pending (syncQueue s))"
  shows "queueStore (drain_pass nws s) =
           settle (zip (filter is_pending (syncQueue s))
                       (map2 result_of nws (filter is_pending (syncQueue s)))) (queueStore s) \<and>
         syncQueue (drain_pass nws s) = queueStore (drain_pass nws s) \<and>
         trace (drain_pass nws s) =
           trace s @ pass_log (zip (filter is_pending (syncQueue s))
                                   (map2 result_of nws (filter is_pending (syncQueue s)))) \<and>
         notifications (drain_pass nws s) =
           notifications s @ pass_notes (map2 result_of nws (filter is_pending (syncQueue s))) \<and>
         drains (drain_pass nws s) = [] \<and> \<not> isSyncing (drain_pass nws s) \<and>
         onLine (drain_pass nws s) = onLine s"
proof (cases "filter is_pending (syncQueue s)")
  case Nil
  with len have "nws = []" by simp
  with Nil idle mirror show ?thesis
    by (simp add: drain_pass_def processSyncQueue_def loadSyncQueue_onsuccess_def
        store_getAll_def pass_log_def pass_notes_def)
next
  case (Cons jb rest)
  let ?s1 = "processSyncQueue s"
  have s1: "?s1 = s\<lparr>isSyncing := True, syncIndicator := ''syncing'',
                    drains := [AwaitCommit jb rest], trace := trace s @ [Attempt jb]\<rparr>"
    using Cons idle on by (simp add: processSyncQueue_def updateSyncIndicator_def)
  have d1: "drains ?s1 = [AwaitCommit jb rest]" by (simp add: s1)
  have wf1: "wf_store (queueStore ?s1)" using wf by (simp add: s1)
  have "set (jb # rest) \<subseteq> set (queueStore s)"
    using Cons mirror by (metis filter_is_subset)
  then have sub1: "set (map job_id (jb # rest)) \<subseteq> set (map job_id (queueStore ?s1))"
    by (auto simp: s1)
  have len1: "length nws = Suc (length rest)" using len Cons by simp
  note L = pass_loop [OF d1 wf1 sub1 len1]
  have f: "queueStore ?s1 = queueStore s" "trace ?s1 = trace s @ [Attempt jb]"
    "notifications ?s1 = notifications s" "loads ?s1 = loads s" "onLine ?s1 = onLine s"
    by (simp_all add: s1)
  from len1 obtain nw nws' where nws: "nws = nw # nws'" by (cases nws) auto
  have shape: "pass_log (zip (jb # rest) (map2 result_of nws (jb # rest))) =
      Attempt jb # tl (pass_log (zip (jb # rest) (map2 result_of nws (jb # rest))))"
    by (simp add: nws pass_log_def)
  have dp: "drain_pass nws s = loadSyncQueue_onsuccess (run (pass_events nws) ?s1)"
    by (simp add: drain_pass_def)
  show ?thesis
    unfolding dp Cons using L shape
    by (simp add: f loadSyncQueue_onsuccess_def store_getAll_def)
qed

lemma settle_map_of:
  "distinct (map job_id js) \<Longrightarrow> length rs = length js \<Longrightarrow>
     settle (zip js rs) st =
       map (\<lambda>x. case map_of (zip (map job_id js) rs) (job_id x) of
                  None \<Rightarrow> x
                | Some r \<Rightarrow> assign x (updates_of r)) st"
proof (induction js arbitrary: rs st)
  case Nil
  then show ?case by simp
next
  case (Cons j js)
  then obtain r rs' where rs: "rs = r # rs'" and len: "length rs' = length js"
    by (cases rs) auto
  from Cons.prems have d: "distinct (map job_id js)" and nin: "job_id j \<notin> set (map job_id js)"
    by auto
  have none: "map_of (zip (map job_id js) rs') (job_id j) = None"
    using nin len by (simp add: map_of_zip_is_None)
  show ?case
    unfolding rs using Cons.IH [OF d len, of "apply_result j r st"] none
    by (auto simp: apply_result_def)
qed

lemma final_store:
  assumes wf: "wf_store st" and len: "length rs = length (filter is_pending st)"
  shows "settle (zip (filter is_pending st) rs) st =
           map (\<lambda>x. case map_of (zip (map job_id (filter is_pending st)) rs) (job_id x) of
                      None \<Rightarrow> x
                    | Some r \<Rightarrow> assign x (updates_of r)) st"
    and "\<And>x. x \<in> set st \<Longrightarrow> \<not> is_pending x \<Longrightarrow>
           map_of (zip (map job_id (filter is_pending st)) rs) (job_id x) = None"
    and "\<And>i. i < length rs \<Longrightarrow>
           map_of (zip (map job_id (filter is_pending st)) rs)
             (job_id (filter is_pending st ! i)) = Some (rs ! i)"
proof -
  have d: "distinct (map job_id st)" using wf by (rule wf_store_ids)
  then have dp: "distinct (map job_id (filter is_pending st))"
    by (rule distinct_map_filter)
  from d have inj: "inj_on job_id (set st)" by (simp add: distinct_map)
  show "settle (zip (filter is_pending st) rs) st =
           map (\<lambda>x. case map_of (zip (map job_id (filter is_pending st)) rs) (job_id x) of
                      None \<Rightarrow> x
                    | Some r \<Rightarrow> assign x (updates_of r)) st"
    using dp len by (rule settle_map_of)
  show "map_of (zip (map job_id (filter is_pending st)) rs) (job_id x) = None"
    if x: "x \<in> set st" "\<not> is_pending x" for x
  proof -
    have "job_id x \<notin> set (map job_id (filter is_pending st))"
    proof
      assume "job_id x \<in> set (map job_id (filter is_pending st))"
      then obtain y where y: "y \<in> set st" "is_pending y" "job_id y = job_id x" by auto
      with inj x have "y = x" by (auto dest: inj_onD)
      with y x show False by simp
    qed
    then show ?thesis using len by (simp add: map_of_zip_is_None)
  qed
  show "map_of (zip (map job_id (filter is_pending st)) rs)
          (job_id (filter is_pending st ! i)) = Some (rs ! i)" if "i < length rs" for i
    using map_of_zip_nth [of "map job_id (filter is_pending st)" rs i] dp len that
    by simp
qed


lemma assign_completed:
  "assign x (updates_of (Success d)) = x\<lparr>status := Some ''completed''\<rparr>"
  by (simp add: assign_def updates_of_def)

lemma assign_failed:
  "assign x (updates_of (Failure m)) = x\<lparr>status := Some ''failed'', error := Some m\<rparr>"
  by (simp add: assign_def updates_of_def)

lemma not_pending_assign: "\<not> is_pending (assign x (updates_of r))"
  by (cases r) (simp_all add: assign_def updates_of_def is_pending_def)

lemma settle_leaves_none_pending:
  assumes wf: "wf_store st" and len: "length rs = length (filter is_pending st)"
  shows "filter is_pending (settle (zip (filter is_pending st) rs) st) = []"
proof -
  have "\<not> is_pending (case map_of (zip (map job_id (filter is_pending st)) rs) (job_id x) of
                      None \<Rightarrow> x | Some r \<Rightarrow> assign x (updates_of r))"
    if x: "x \<in> set st" for x
  proof (cases "is_pending x")
    case True
    with x have "x \<in> set (filter is_pending st)" by simp
    then obtain i where i: "i < length (filter is_pending st)" "filter is_pending st ! i = x"
      by (metis in_set_conv_nth)
    with final_store(3) [OF wf len, of i] len show ?thesis
      by (simp add: not_pending_assign)
  next
    case False
    with final_store(2) [OF wf len x] show ?thesis by simp
  qed
  then show ?thesis
    unfolding final_store(1) [OF wf len] by (simp add: filter_empty_conv)
qed

lemma all_success_store:
  assumes wf: "wf_store st" and len: "length rs = length (filter is_pending st)"
    and ok: "\<forall>i < length rs. \<exists>d. rs ! i = Success d"
  shows "settle (zip (filter is_pending st) rs) st =
           map (\<lambda>j. if is_pending j then j\<lparr>status := Some ''completed''\<rparr> else j) st"
  unfolding final_store(1) [OF wf len]
proof (rule map_cong [OF refl])
  fix x assume x: "x \<in> set st"
  show "(case map_of (zip (map job_id (filter is_pending st)) rs) (job_id x) of
           None \<Rightarrow> x | Some r \<Rightarrow> assign x (updates_of r)) =
        (if is_pending x then x\<lparr>status := Some ''completed''\<rparr> else x)"
  proof (cases "is_pending x")
    case True
    with x have "x \<in> set (filter is_pending st)" by simp
    then obtain i where i: "i < length (filter is_pending st)" "filter is_pending st ! i = x"
      by (metis in_set_conv_nth)
    from ok i len obtain d where "rs ! i = Success d" by auto
    with final_store(3) [OF wf len, of i] i len True show ?thesis
      by (simp add: assign_completed)
  next
    case False
    with final_store(2) [OF wf len x] show ?thesis by simp
  qed
qed

lemma map2_result_nth:
  "length nws = length js \<Longrightarrow> i < length js \<Longrightarrow>
     map2 result_of nws js ! i = result_of (nws ! i) (js ! i)"
  by simp

text \<open>
  C3. Take a queue store with unique keys, loaded into \<^verbatim>\<open>syncQueue\<close>, no drain active and
  the device online, and one network per pending job on which its publish succeeds. One
  drain pass turns the status of every pending job into \<^verbatim>\<open>'completed'\<close> and changes
  nothing else in the store, so no job is left pending in the store or in the reloaded
  queue; the log of the pass is \<open>Attempt\<close>, \<open>Outcome\<close> of the first selected job, then of
  the second, and so on: one job at a time, in the order of the selection.
\<close>

theorem drain_completes_every_pending_job:
  "wf_store (queueStore s) \<Longrightarrow> syncQueue s = queueStore s \<Longrightarrow>
   \<not> isSyncing s \<Longrightarrow> drains s = [] \<Longrightarrow> onLine s \<Longrightarrow>
   length nws = length (filter is_pending (syncQueue s)) \<Longrightarrow>
   (\<forall>i < length nws.
      \<exists>d. commitToGitHub (nws ! i) (filter is_pending (syncQueue s) ! i) = Inr (Success d)) \<Longrightarrow>
   queueStore (drain_pass nws s) =
     map (\<lambda>j. if is_pending j then j\<lparr>status := Some ''completed''\<rparr> else j) (queueStore s) \<and>
   filter is_pending (queueStore (drain_pass nws s)) = [] \<and>
   filter is_pending (syncQueue (drain_pass nws s)) = [] \<and>
   trace (drain_pass nws s) =
     trace s @ pass_log (zip (filter is_pending (syncQueue s))
                             (map2 result_of nws (filter is_pending (syncQueue s)))) \<and>
   attempts (trace (drain_pass nws s)) = attempts (trace s) @ filter is_pending (syncQueue s) \<and>
   drains (drain_pass nws s) = [] \<and> \<not> isSyncing (drain_pass nws s)"
proof -
  assume wf: "wf_store (queueStore s)" and mirror: "syncQueue s = queueStore s"
    and idle: "\<not> isSyncing s" "drains s = []" and on: "onLine s"
    and len: "length nws = length (filter is_pending (syncQueue s))"
    and ok: "\<forall>i < length nws.
      \<exists>d. commitToGitHub (nws ! i) (filter is_pending (syncQueue s) ! i) = Inr (Success d)"
  let ?P = "filter is_pending (syncQueue s)"
  let ?rs = "map2 result_of nws ?P"
  have lrs: "length ?rs = length (filter is_pending (queueStore s))"
    using len mirror by simp
  have oks: "\<forall>i < length ?rs. \<exists>d. ?rs ! i = Success d"
    using ok len by (auto simp: result_of_def)
  note E = drain_pass_effect [OF wf mirror idle on len]
  have st: "queueStore (drain_pass nws s) =
      map (\<lambda>j. if is_pending j then j\<lparr>status := Some ''completed''\<rparr> else j) (queueStore s)"
    using E all_success_store [OF wf lrs oks] mirror by simp
  have none: "filter is_pending (queueStore (drain_pass nws s)) = []"
    using E settle_leaves_none_pending [OF wf lrs] mirror by simp
  have att: "attempts (trace (drain_pass nws s)) = attempts (trace s) @ ?P"
    using E len by (simp add: attempts_pass_log)
  from E st none att show ?thesis by simp
qed


lemma pass_log_nth:
  "length rs = length js \<Longrightarrow> i < length js \<Longrightarrow>
     Attempt (js ! i) \<in> set (pass_log (zip js rs)) \<and>
     Outcome (js ! i) (rs ! i) \<in> set (pass_log (zip js rs))"
proof -
  assume a: "length rs = length js" "i < length js"
  then have "(js ! i, rs ! i) \<in> set (zip js rs)"
    by (metis length_zip min.idem nth_mem nth_zip)
  then show ?thesis
    unfolding pass_log_def by (auto intro!: bexI [of _ "(js ! i, rs ! i)"])
qed

text \<open>
  C4. In the same setting, whatever the networks do: when the publish of the \<open>k\<close>-th
  selected job fails with message \<open>m\<close>, the job is in the store afterwards with status
  \<^verbatim>\<open>'failed'\<close> and \<open>m\<close> as its \<^verbatim>\<open>error\<close>; every selected job, those after \<open>k\<close>
  included, is attempted and has its outcome, in selection order; no job is left
  pending; no exception ends the drain, and the pass finishes with the flag cleared.
\<close>

theorem failed_job_is_marked_and_the_batch_goes_on:
  "wf_store (queueStore s) \<Longrightarrow> syncQueue s = queueStore s \<Longrightarrow>
   \<not> isSyncing s \<Longrightarrow> drains s = [] \<Longrightarrow> onLine s \<Longrightarrow>
   length nws = length (filter is_pending (syncQueue s)) \<Longrightarrow>
   k < length nws \<Longrightarrow>
   commitToGitHub (nws ! k) (filter is_pending (syncQueue s) ! k) = Inr (Failure m) \<Longrightarrow>
   (filter is_pending (syncQueue s) ! k)\<lparr>status := Some ''failed'', error := Some m\<rparr>
      \<in> set (queueStore (drain_pass nws s)) \<and>
   trace (drain_pass nws s) =
     trace s @ pass_log (zip (filter is_pending (syncQueue s))
                             (map2 result_of nws (filter is_pending (syncQueue s)))) \<and>
   attempts (trace (drain_pass nws s)) = attempts (trace s) @ filter is_pending (syncQueue s) \<and>
   (\<forall>i. k < i \<and> i < length nws \<longrightarrow>
      Attempt (filter is_pending (syncQueue s) ! i) \<in> set (trace (drain_pass nws s)) \<and>
      Outcome (filter is_pending (syncQueue s) ! i)
              (result_of (nws ! i) (filter is_pending (syncQueue s) ! i))
        \<in> set (trace (drain_pass nws s))) \<and>
   filter is_pending (queueStore (drain_pass nws s)) = [] \<and>
   (calm s \<longrightarrow> calm (drain_pass nws s)) \<and>
   drains (drain_pass nws s) = [] \<and> \<not> isSyncing (drain_pass nws s)"
proof -
  assume wf: "wf_store (queueStore s)" and mirror: "syncQueue s = queueStore s"
    and idle: "\<not> isSyncing s" "drains s = []" and on: "onLine s"
    and len: "length nws = length (filter is_pending (syncQueue s))"
    and k: "k < length nws"
    and fail: "commitToGitHub (nws ! k) (filter is_pending (syncQueue s) ! k) = Inr (Failure m)"
  let ?P = "filter is_pending (syncQueue s)"
  let ?rs = "map2 result_of nws ?P"
  have lrs: "length ?rs = length (filter is_pending (queueStore s))"
    using len mirror by simp
  have lP: "length ?rs = length ?P" using len by simp
  note E = drain_pass_effect [OF wf mirror idle on len]
  have rk: "?rs ! k = Failure m"
    using k len fail by (simp add: result_of_def)
  define F where "F = (\<lambda>x. case map_of (zip (map job_id (filter is_pending (queueStore s)))
      (map2 result_of nws (filter is_pending (queueStore s)))) (job_id x) of
          None \<Rightarrow> x | Some r \<Rightarrow> assign x (updates_of r))"
  have PQ: "?P = filter is_pending (queueStore s)" using mirror by simp
  have Pk: "?P ! k \<in> set (queueStore s)"
    using k len mirror by (metis filter_is_subset nth_mem subsetD)
  have qs: "queueStore (drain_pass nws s) = map F (queueStore s)"
    using E final_store(1) [OF wf lrs] unfolding F_def PQ by simp
  have "map_of (zip (map job_id (filter is_pending (queueStore s)))
          (map2 result_of nws (filter is_pending (queueStore s))))
          (job_id (filter is_pending (queueStore s) ! k)) = Some (Failure m)"
    using final_store(3) [OF wf lrs, of k] k len rk unfolding PQ by simp
  then have "F (?P ! k) = (?P ! k)\<lparr>status := Some ''failed'', error := Some m\<rparr>"
    unfolding F_def PQ by (simp add: assign_failed)
  moreover have "F (?P ! k) \<in> set (map F (queueStore s))"
    using Pk by simp
  ultimately have marked: "(?P ! k)\<lparr>status := Some ''failed'', error := Some m\<rparr>
      \<in> set (queueStore (drain_pass nws s))"
    unfolding qs by simp
  have none: "filter is_pending (queueStore (drain_pass nws s)) = []"
    using E settle_leaves_none_pending [OF wf lrs] mirror by simp
  have att: "attempts (trace (drain_pass nws s)) = attempts (trace s) @ ?P"
    using E len by (simp add: attempts_pass_log)
  have later: "\<forall>i. k < i \<and> i < length nws \<longrightarrow>
      Attempt (?P ! i) \<in> set (trace (drain_pass nws s)) \<and>
      Outcome (?P ! i) (result_of (nws ! i) (?P ! i)) \<in> set (trace (drain_pass nws s))"
  proof (intro allI impI)
    fix i assume i: "k < i \<and> i < length nws"
    then have il: "i < length ?P" using len by simp
    from pass_log_nth [OF lP il] il len
    show "Attempt (?P ! i) \<in> set (trace (drain_pass nws s)) \<and>
      Outcome (?P ! i) (result_of (nws ! i) (?P ! i)) \<in> set (trace (drain_pass nws s))"
      using E by simp
  qed
  have calm: "calm s \<longrightarrow> calm (drain_pass nws s)"
    using E calm_pass_log by (simp add: calm_def)
  from E marked none att later calm show ?thesis by simp
qed

subsection \<open>Jobs that are no longer pending\<close>

text \<open>
  The store keeps unique keys in every reachable state: \<^verbatim>\<open>saveToGitHub\<close> never writes
  to it, an update replaces a record under its own key, the purge and \<^verbatim>\<open>forgetToken\<close>
  only delete.
\<close>

lemma saveToGitHub_store:
  "queueStore (fst (saveToGitHub publish nw now s)) = queueStore s"
  "syncQueue (fst (saveToGitHub publish nw now s)) = syncQueue s"
  by (simp_all add: saveToGitHub_def showNotification_def addToSyncQueue_def store_put_def
      queued_job_def Let_def split: sum.splits)

lemma saveGitHubSettings_store:
  "queueStore (saveGitHubSettings f s) = queueStore s"
  "syncQueue (saveGitHubSettings f s) = syncQueue s"
  by (simp_all add: saveGitHubSettings_def showNotification_def Let_def)

lemma updateQueueJob_Inr:
  assumes "wf_store st" and "updateQueueJob (job_id jb) (updates_of r) st = Inr st'"
  shows "st' = apply_result jb r st"
proof -
  from assms(2) obtain k where k: "job_id jb = Some k"
    by (cases "job_id jb") (auto simp: updateQueueJob_def)
  with assms(2) obtain x where "store_get k st = Some x"
    by (cases "store_get k st") (auto simp: updateQueueJob_def)
  then have "x \<in> set st" "job_id x = Some k"
    by (auto simp: store_get_def find_Some_iff)
  with k have "job_id jb \<in> set (map job_id st)" by force
  from updateQueueJob_present [OF assms(1) this, of r] k assms(2) show ?thesis by simp
qed

lemma wf_store_filter: "wf_store st \<Longrightarrow> wf_store (filter P st)"
  by (auto simp: wf_store_def list_all_iff sorted_wrt_map intro: sorted_wrt_filter)

lemma wf_store_step: "wf_store (queueStore s) \<Longrightarrow> wf_store (queueStore (step e s))"
proof (cases e)
  case (UpdateSettles i)
  assume wf: "wf_store (queueStore s)"
  show ?thesis
  proof (cases "i < length (drains s)")
    case False
    with wf UpdateSettles show ?thesis by (simp add: update_settles_def)
  next
    case True
    show ?thesis
    proof (cases "drains s ! i")
      case (AwaitCommit jb rest)
      with wf True UpdateSettles show ?thesis by (simp add: update_settles_def)
    next
      case (AwaitUpdate jb r rest)
      show ?thesis
      proof (cases "updateQueueJob (job_id jb) (updates_of r) (queueStore s)")
        case (Inl e)
        with wf True UpdateSettles AwaitUpdate show ?thesis by (simp add: update_settles_def)
      next
        case (Inr st)
        from updateQueueJob_Inr [OF wf Inr] wf have "wf_store st" by (simp add: wf_apply_result)
        with True UpdateSettles AwaitUpdate Inr show ?thesis
          by (simp add: update_settles_def notify_result_def showNotification_def Let_def
              loadSyncQueue_def updateSyncIndicator_def split: list.splits commit_result.splits)
      qed
    qed
  qed
next
  case PurgeTimer
  assume "wf_store (queueStore s)"
  then show ?thesis using PurgeTimer
    by (simp add: clearCompletedJobs_def loadSyncQueue_def Let_def fold_store_delete
        wf_store_filter)
next
  case ForgetToken
  then show ?thesis
    by (simp add: forgetToken_def loadSyncQueue_def showNotification_def wf_store_def)
qed (simp_all add: processSyncQueue_def handleOnline_def handleOffline_def syncNow_def
    updateSyncIndicator_def showNotification_def commit_returns_def loadSyncQueue_onsuccess_def
    saveToGitHub_store saveGitHubSettings_store
    split: list.splits activation.splits sum.splits option.splits)

lemma reachable_wf_store: "reachable s \<Longrightarrow> wf_store (queueStore s)"
proof (induction rule: reachable.induct)
  case (start st online ls ss)
  then show ?case by (simp add: startup_defs split: option.splits)
next
  case (task s e)
  then show ?case by (simp add: wf_store_step)
qed

text \<open>
  Once no record with a key is pending in the store, in the loaded queue or in the
  selection of a suspended drain, this stays so, and no task calls
  \<^verbatim>\<open>commitToGitHub\<close> on a job with that key: the selection takes pending jobs of the
  loaded queue only, an update writes \<^verbatim>\<open>'completed'\<close> or \<^verbatim>\<open>'failed'\<close>, and a reload
  copies the store.
\<close>

lemma quiet_simps [simp]:
  "quiet i []" "quiet i [Attempt jb] = (job_id jb \<noteq> i)" "quiet i [Outcome jb r]"
  "quiet i [Rejected e]" "quiet i (xs @ ys) = (quiet i xs \<and> quiet i ys)"
  "quiet i (Outcome jb r # tr) = quiet i tr"
  by (auto simp: quiet_def)

lemma set_remove_nth: "set (remove_nth i xs) \<subseteq> set xs"
  unfolding remove_nth_def by (auto dest: in_set_takeD in_set_dropD)

lemma retired_processSyncQueue:
  assumes "retired i s"
  shows "retired i (processSyncQueue s) \<and>
         (\<exists>tr. trace (processSyncQueue s) = trace s @ tr \<and> quiet i tr)"
proof (cases "isSyncing s \<or> \<not> onLine s")
  case True
  with assms show ?thesis by (simp add: processSyncQueue_def)
next
  case False
  show ?thesis
  proof (cases "filter is_pending (syncQueue s)")
    case Nil
    with assms show ?thesis by (simp add: processSyncQueue_def)
  next
    case (Cons jb rest)
    have "set (jb # rest) \<subseteq> {j \<in> set (syncQueue s). is_pending j}"
      unfolding Cons [symmetric] by auto
    with assms have sel: "\<forall>j \<in> set (jb # rest). job_id j \<noteq> i"
      by (auto simp: retired_def)
    with assms False Cons show ?thesis
      by (auto simp: processSyncQueue_def updateSyncIndicator_def retired_def)
  qed
qed

lemma retired_frame:
  assumes "retired i s" "queueStore s' = queueStore s" "syncQueue s' = syncQueue s"
    "drains s' = drains s"
  shows "retired i s'"
  using assms by (simp add: retired_def)

lemma retired_commit_returns:
  assumes "retired i s"
  shows "retired i (commit_returns k nw s) \<and>
         (\<exists>tr. trace (commit_returns k nw s) = trace s @ tr \<and> quiet i tr)"
proof (cases "k < length (drains s)")
  case False
  with assms show ?thesis by (simp add: commit_returns_def)
next
  case True
  show ?thesis
  proof (cases "drains s ! k")
    case (AwaitUpdate jb r rest)
    with assms True show ?thesis by (simp add: commit_returns_def)
  next
    case (AwaitCommit jb rest)
    from True have "drains s ! k \<in> set (drains s)" by simp
    with assms AwaitCommit have rest: "\<forall>j \<in> set rest. job_id j \<noteq> i"
      by (auto simp: retired_def)
    have rm: "\<forall>act \<in> set (remove_nth k (drains s)). \<forall>j \<in> set (selected act). job_id j \<noteq> i"
      using assms set_remove_nth [of k "drains s"] by (auto simp: retired_def)
    have up: "\<forall>act \<in> set ((drains s)[k := AwaitUpdate jb r rest]).
        \<forall>j \<in> set (selected act). job_id j \<noteq> i" for r
    proof (intro ballI)
      fix act j
      assume a: "act \<in> set ((drains s)[k := AwaitUpdate jb r rest])" and j: "j \<in> set (selected act)"
      from a set_update_subset_insert [of "drains s" k "AwaitUpdate jb r rest"]
      have "act = AwaitUpdate jb r rest \<or> act \<in> set (drains s)" by auto
      then show "job_id j \<noteq> i"
        using j rest assms by (auto simp: retired_def)
    qed
    from assms have st: "\<forall>j \<in> set (queueStore s). job_id j = i \<longrightarrow> \<not> is_pending j"
      "\<forall>j \<in> set (syncQueue s). job_id j = i \<longrightarrow> \<not> is_pending j"
      by (simp_all add: retired_def)
    show ?thesis
      using True AwaitCommit st rm up
      by (simp add: commit_returns_def retired_def split: sum.splits option.splits)
  qed
qed

lemma not_pending_apply_result:
  assumes "\<forall>j \<in> set st. job_id j = i \<longrightarrow> \<not> is_pending j"
  shows "\<forall>j \<in> set (apply_result jb r st). job_id j = i \<longrightarrow> \<not> is_pending j"
  using assms by (auto simp: apply_result_def not_pending_assign)

lemma set_upsert: "set (upsert k v st) \<subseteq> insert v (set st)"
  by (induction st) (auto split: option.splits)

lemma updateQueueJob_not_pending:
  assumes "updateQueueJob jid (updates_of r) st = Inr st'"
    and "\<forall>j \<in> set st. job_id j = i \<longrightarrow> \<not> is_pending j"
  shows "\<forall>j \<in> set st'. job_id j = i \<longrightarrow> \<not> is_pending j"
proof -
  from assms(1) obtain k x where "st' = upsert k (assign x (updates_of r)) st"
    by (auto simp: updateQueueJob_def store_put_def split: option.splits)
  with set_upsert [of k "assign x (updates_of r)" st]
  have "set st' \<subseteq> insert (assign x (updates_of r)) (set st)" by simp
  with assms(2) show ?thesis
    using not_pending_assign by blast
qed

lemma retired_update_settles:
  assumes "retired i s"
  shows "retired i (update_settles k s) \<and>
         (\<exists>tr. trace (update_settles k s) = trace s @ tr \<and> quiet i tr)"
proof (cases "k < length (drains s)")
  case False
  with assms show ?thesis by (simp add: update_settles_def)
next
  case True
  show ?thesis
  proof (cases "drains s ! k")
    case (AwaitCommit jb rest)
    with assms True show ?thesis by (simp add: update_settles_def)
  next
    case (AwaitUpdate jb r rest)
    from True have "drains s ! k \<in> set (drains s)" by simp
    with assms AwaitUpdate have rest: "\<forall>j \<in> set rest. job_id j \<noteq> i"
      by (auto simp: retired_def)
    have rm: "\<forall>act \<in> set (remove_nth k (drains s)). \<forall>j \<in> set (selected act). job_id j \<noteq> i"
      using assms set_remove_nth [of k "drains s"] by (auto simp: retired_def)
    from assms have st: "\<forall>j \<in> set (queueStore s). job_id j = i \<longrightarrow> \<not> is_pending j"
      and sq: "\<forall>j \<in> set (syncQueue s). job_id j = i \<longrightarrow> \<not> is_pending j"
      by (simp_all add: retired_def)
    show ?thesis
    proof (cases "updateQueueJob (job_id jb) (updates_of r) (queueStore s)")
      case (Inl e)
      with True AwaitUpdate st sq rm show ?thesis
        by (simp add: update_settles_def retired_def)
    next
      case (Inr st')
      from updateQueueJob_not_pending [OF Inr st]
      have st': "\<forall>j \<in> set st'. job_id j = i \<longrightarrow> \<not> is_pending j" .
      show ?thesis
      proof (cases rest)
        case Nil
        with True AwaitUpdate Inr st' sq rm show ?thesis
          by (simp add: update_settles_def retired_def notify_result_def showNotification_def
              loadSyncQueue_def updateSyncIndicator_def Let_def split: commit_result.splits)
      next
        case (Cons nxt rest')
        have up: "\<forall>act \<in> set ((drains s)[k := AwaitCommit nxt rest']).
            \<forall>j \<in> set (selected act). job_id j \<noteq> i"
        proof (intro ballI)
          fix act j
          assume a: "act \<in> set ((drains s)[k := AwaitCommit nxt rest'])"
            and j: "j \<in> set (selected act)"
          from a set_update_subset_insert [of "drains s" k "AwaitCommit nxt rest'"]
          have "act = AwaitCommit nxt rest' \<or> act \<in> set (drains s)" by auto
          then show "job_id j \<noteq> i"
            using j rest Cons assms by (auto simp: retired_def)
        qed
        from rest Cons have "job_id nxt \<noteq> i" by simp
        with True AwaitUpdate Inr Cons st' sq up show ?thesis
          by (simp add: update_settles_def retired_def notify_result_def showNotification_def
              Let_def split: commit_result.splits)
      qed
    qed
  qed
qed

lemma retired_step:
  assumes "retired i s"
  shows "retired i (step e s) \<and> (\<exists>tr. trace (step e s) = trace s @ tr \<and> quiet i tr)"
proof (cases e)
  case StartupTimer
  with retired_processSyncQueue [OF assms] show ?thesis by simp
next
  case Online
  have "retired i (updateSyncIndicator ''online'' (s\<lparr>onLine := True\<rparr>))"
    using assms by (simp add: retired_def updateSyncIndicator_def)
  from retired_processSyncQueue [OF this] Online show ?thesis
    by (simp add: handleOnline_def updateSyncIndicator_def)
next
  case Offline
  with assms show ?thesis
    by (simp add: retired_def handleOffline_def updateSyncIndicator_def)
next
  case SyncNow
  show ?thesis
  proof (cases "onLine s")
    case True
    with retired_processSyncQueue [OF assms] SyncNow show ?thesis by (simp add: syncNow_def)
  next
    case False
    with assms SyncNow show ?thesis
      by (simp add: syncNow_def retired_def showNotification_def)
  qed
next
  case (CommitReturns k nw)
  with retired_commit_returns [OF assms] show ?thesis by simp
next
  case (UpdateSettles k)
  with retired_update_settles [OF assms] show ?thesis by simp
next
  case LoadSucceeds
  with assms show ?thesis
    by (simp add: retired_def loadSyncQueue_onsuccess_def store_getAll_def)
next
  case PurgeTimer
  with assms show ?thesis
    by (simp add: retired_def clearCompletedJobs_def loadSyncQueue_def Let_def
        fold_store_delete)
next
  case ForgetToken
  with assms show ?thesis
    by (simp add: retired_def forgetToken_def loadSyncQueue_def showNotification_def)
next
  case (Typed t)
  with assms show ?thesis by (simp add: retired_def)
next
  case (SaveToGitHub publish nw now)
  with assms show ?thesis
    by (simp add: retired_def saveToGitHub_store saveToGitHub_frame)
next
  case (SaveSettings f)
  with assms show ?thesis
    by (simp add: retired_def saveGitHubSettings_store saveGitHubSettings_frame)
qed

lemma retired_run:
  "retired i s \<Longrightarrow>
     retired i (run evs s) \<and> (\<exists>tr. trace (run evs s) = trace s @ tr \<and> quiet i tr)"
proof (induction evs arbitrary: s)
  case Nil
  then show ?case by simp
next
  case (Cons e evs)
  from retired_step [OF Cons.prems, of e] obtain t1 where
    r1: "retired i (step e s)" and t1: "trace (step e s) = trace s @ t1" "quiet i t1" by blast
  from Cons.IH [OF r1] obtain t2 where
    r2: "retired i (run evs (step e s))"
    and t2: "trace (run evs (step e s)) = trace (step e s) @ t2" "quiet i t2" by blast
  from t1 t2 have "trace (run (e # evs) s) = trace s @ (t1 @ t2)" "quiet i (t1 @ t2)" by simp_all
  with r2 show ?case by (metis run_Cons)
qed

lemma retired_failed:
  assumes "reachable s" "drains s = []" "syncQueue s = queueStore s"
    "j \<in> set (queueStore s)" "status j = Some ''failed''"
  shows "retired (job_id j) s"
proof -
  from assms(1) have "wf_store (queueStore s)" by (rule reachable_wf_store)
  then have "distinct (map job_id (queueStore s))" by (rule wf_store_ids)
  then have "inj_on job_id (set (queueStore s))" by (simp add: distinct_map)
  with assms(4) have "\<forall>x \<in> set (queueStore s). job_id x = job_id j \<longrightarrow> x = j"
    by (metis inj_onD)
  moreover from assms(5) have "\<not> is_pending j" by (simp add: is_pending_def)
  ultimately show ?thesis
    using assms(2,3) by (auto simp: retired_def)
qed

text \<open>
  C5, amended. A call of the drain that passes the guard selects exactly the jobs of the
  loaded queue whose status is \<^verbatim>\<open>'pending'\<close>, in the order of the queue, and calls
  \<^verbatim>\<open>commitToGitHub\<close> on the first; when no job of the loaded queue is pending the call
  does nothing. Every job that was ever passed to \<^verbatim>\<open>commitToGitHub\<close> carried the status
  \<^verbatim>\<open>'pending'\<close>. A job left with status \<^verbatim>\<open>'failed'\<close> is not retried: from a state in
  which no drain is active and the loaded queue is the content of the store, no later
  task, whatever the events are, attempts a job with the key of a job that the store
  holds as \<^verbatim>\<open>'failed'\<close>.
\<close>

theorem only_pending_jobs_are_attempted:
  "reachable s \<Longrightarrow>
     (\<forall>jb \<in> set (attempts (trace s)). status jb = Some ''pending'') \<and>
     (\<forall>jb rest. \<not> isSyncing s \<and> onLine s \<and> filter is_pending (syncQueue s) = jb # rest \<longrightarrow>
        drains (processSyncQueue s) = drains s @ [AwaitCommit jb rest] \<and>
        trace (processSyncQueue s) = trace s @ [Attempt jb]) \<and>
     (filter is_pending (syncQueue s) = [] \<longrightarrow> processSyncQueue s = s) \<and>
     (\<forall>j evs. drains s = [] \<and> syncQueue s = queueStore s \<and> j \<in> set (queueStore s) \<and>
        status j = Some ''failed'' \<longrightarrow>
        (\<exists>tr. trace (run evs s) = trace s @ tr \<and>
              (\<forall>jb \<in> set (attempts tr). job_id jb \<noteq> job_id j)))"
proof -
  assume r: "reachable s"
  have 1: "\<forall>jb \<in> set (attempts (trace s)). status jb = Some ''pending''"
    using reachable_pending_inv [OF r] by (auto simp: pending_inv_def list_all_iff is_pending_def)
  have 2: "\<forall>jb rest. \<not> isSyncing s \<and> onLine s \<and> filter is_pending (syncQueue s) = jb # rest \<longrightarrow>
        drains (processSyncQueue s) = drains s @ [AwaitCommit jb rest] \<and>
        trace (processSyncQueue s) = trace s @ [Attempt jb]"
    by (simp add: processSyncQueue_def updateSyncIndicator_def)
  have 3: "filter is_pending (syncQueue s) = [] \<longrightarrow> processSyncQueue s = s"
    by (simp add: processSyncQueue_def)
  have 4: "\<forall>j evs. drains s = [] \<and> syncQueue s = queueStore s \<and> j \<in> set (queueStore s) \<and>
        status j = Some ''failed'' \<longrightarrow>
        (\<exists>tr. trace (run evs s) = trace s @ tr \<and>
              (\<forall>jb \<in> set (attempts tr). job_id jb \<noteq> job_id j))"
  proof (intro allI impI)
    fix j evs
    assume a: "drains s = [] \<and> syncQueue s = queueStore s \<and> j \<in> set (queueStore s) \<and>
        status j = Some ''failed''"
    then have "retired (job_id j) s" using r by (intro retired_failed) simp_all
    from retired_run [OF this, of evs]
    show "\<exists>tr. trace (run evs s) = trace s @ tr \<and>
              (\<forall>jb \<in> set (attempts tr). job_id jb \<noteq> job_id j)"
      by (auto simp: quiet_def)
  qed
  from 1 2 3 4 show ?thesis by blast
qed

subsection \<open>The passes over the sample queue\<close>

lemma utf8_hot: "utf8ToBase64 hot_beverage = Inr (ascii ''4piV'')"
  by (simp add: codec_defs hot_beverage_def)

lemma commit_accept_d: "commitToGitHub nw_accept job_d = Inr (Success accepted)"
  using utf8_hot
  by (simp add: commitToGitHub_def commitToGitHub_try_def resolve_branch_def lookup_sha_def
      fetch_def nw_accept_def truthy_def mk_job_def job_d_def send_commit_def json_of_def
      read_prop_def accepted_def js_string_def)

lemma commit_conflict_a: "commitToGitHub nw_conflict job_a = Inr (Failure ''Conflict'')"
  using utf8_draft
  by (simp add: commitToGitHub_def commitToGitHub_try_def resolve_branch_def lookup_sha_def
      fetch_def nw_conflict_def truthy_def mk_job_def job_a_def send_commit_def json_of_def
      read_prop_def accepted_def js_string_def commit_request_def str_of_def)

lemma sample_pending:
  "is_pending job_a" "\<not> is_pending job_b" "\<not> is_pending job_c" "is_pending job_d"
  by (simp_all add: is_pending_def sample_defs)

lemma loaded_idle:
  "wf_store (queueStore loaded_app)" "syncQueue loaded_app = queueStore loaded_app"
  "\<not> isSyncing loaded_app" "drains loaded_app = []" "onLine loaded_app"
  by (simp_all add: loaded_app_fields wf_sample_store)

lemma two_nets: "length [nw1, nw2 :: net] = length (filter is_pending (syncQueue loaded_app))"
  by (simp add: loaded_app_fields pending_sample)

lemma sample_results:
  "result_of nw_accept job_a = Success accepted" "result_of nw_accept job_d = Success accepted"
  "result_of nw_conflict job_a = Failure ''Conflict''"
  by (simp_all add: result_of_def commit_accept_a commit_accept_d commit_conflict_a)

lemma settle_sample:
  "apply_result job_d r2 (apply_result job_a r1 sample_store) =
     [assign job_a (updates_of r1), job_b, job_c, assign job_d (updates_of r2)]"
  by (simp add: apply_result_def sample_store_def job_ids)

lemma conflicted_app_fields:
  "queueStore conflicted_app =
     [job_a\<lparr>status := Some ''failed'', error := Some ''Conflict''\<rparr>, job_b, job_c,
      job_d\<lparr>status := Some ''completed''\<rparr>]"
  "syncQueue conflicted_app = queueStore conflicted_app"
  "trace conflicted_app =
     [Attempt job_a, Outcome job_a (Failure ''Conflict''),
      Attempt job_d, Outcome job_d (Success accepted)]"
  "drains conflicted_app = []" "\<not> isSyncing conflicted_app" "onLine conflicted_app"
  using drain_pass_effect [OF loaded_idle two_nets, of nw_conflict nw_accept]
  by (simp_all add: conflicted_app_def loaded_app_fields pending_sample sample_results
      settle_sample assign_failed assign_completed pass_log_def)

lemma drained_app_fields:
  "queueStore drained_app =
     [job_a\<lparr>status := Some ''completed''\<rparr>, job_b, job_c,
      job_d\<lparr>status := Some ''completed''\<rparr>]"
  "syncQueue drained_app = queueStore drained_app"
  "trace drained_app =
     [Attempt job_a, Outcome job_a (Success accepted),
      Attempt job_d, Outcome job_d (Success accepted)]"
  "drains drained_app = []" "\<not> isSyncing drained_app" "onLine drained_app"
  using drain_pass_effect [OF loaded_idle two_nets, of nw_accept nw_accept]
  by (simp_all add: drained_app_def loaded_app_fields pending_sample sample_results
      settle_sample assign_completed pass_log_def)

lemma reachable_conflicted: "reachable conflicted_app"
  unfolding conflicted_app_def drain_pass_def by (intro reachable_run reachable_loaded)

theorem drain_completes_every_pending_job_witness:
  "wf_store (queueStore loaded_app) \<and> syncQueue loaded_app = queueStore loaded_app \<and>
   \<not> isSyncing loaded_app \<and> drains loaded_app = [] \<and> onLine loaded_app \<and>
   filter is_pending (syncQueue loaded_app) = [job_a, job_d] \<and>
   commitToGitHub nw_accept job_a = Inr (Success accepted) \<and>
   commitToGitHub nw_accept job_d = Inr (Success accepted) \<and>
   queueStore (drain_pass [nw_accept, nw_accept] loaded_app) =
     [job_a\<lparr>status := Some ''completed''\<rparr>, job_b, job_c,
      job_d\<lparr>status := Some ''completed''\<rparr>] \<and>
   filter is_pending (syncQueue (drain_pass [nw_accept, nw_accept] loaded_app)) = [] \<and>
   attempts (trace (drain_pass [nw_accept, nw_accept] loaded_app)) = [job_a, job_d] \<and>
   \<not> isSyncing (drain_pass [nw_accept, nw_accept] loaded_app)"
proof -
  have p: "filter is_pending (syncQueue loaded_app) = [job_a, job_d]"
    by (simp add: loaded_app_fields pending_sample)
  have ok: "\<forall>i < length [nw_accept, nw_accept].
      \<exists>d. commitToGitHub ([nw_accept, nw_accept] ! i)
             (filter is_pending (syncQueue loaded_app) ! i) = Inr (Success d)"
    by (simp add: p less_Suc_eq commit_accept_a commit_accept_d)
  note T = drain_completes_every_pending_job [OF loaded_idle two_nets ok]
  from T have st: "queueStore (drain_pass [nw_accept, nw_accept] loaded_app) =
      map (\<lambda>j. if is_pending j then j\<lparr>status := Some ''completed''\<rparr> else j)
        (queueStore loaded_app)"
    by blast
  from T have np: "filter is_pending (syncQueue (drain_pass [nw_accept, nw_accept] loaded_app)) = []"
    by blast
  from T have at: "attempts (trace (drain_pass [nw_accept, nw_accept] loaded_app)) =
      attempts (trace loaded_app) @ filter is_pending (syncQueue loaded_app)"
    by blast
  from T have ns: "\<not> isSyncing (drain_pass [nw_accept, nw_accept] loaded_app)"
    by blast
  show ?thesis
    using loaded_idle commit_accept_a commit_accept_d np ns
    by (simp add: st at loaded_app_fields pending_sample sample_store_def sample_pending)
qed

theorem failed_job_is_marked_and_the_batch_goes_on_witness:
  "wf_store (queueStore loaded_app) \<and> syncQueue loaded_app = queueStore loaded_app \<and>
   \<not> isSyncing loaded_app \<and> drains loaded_app = [] \<and> onLine loaded_app \<and>
   filter is_pending (syncQueue loaded_app) = [job_a, job_d] \<and>
   commitToGitHub nw_conflict job_a = Inr (Failure ''Conflict'') \<and>
   job_a\<lparr>status := Some ''failed'', error := Some ''Conflict''\<rparr>
     \<in> set (queueStore (drain_pass [nw_conflict, nw_accept] loaded_app)) \<and>
   attempts (trace (drain_pass [nw_conflict, nw_accept] loaded_app)) = [job_a, job_d] \<and>
   Attempt job_d \<in> set (trace (drain_pass [nw_conflict, nw_accept] loaded_app)) \<and>
   drains (drain_pass [nw_conflict, nw_accept] loaded_app) = [] \<and>
   \<not> isSyncing (drain_pass [nw_conflict, nw_accept] loaded_app)"
proof -
  have p: "filter is_pending (syncQueue loaded_app) = [job_a, job_d]"
    by (simp add: loaded_app_fields pending_sample)
  have k: "(0::nat) < length [nw_conflict, nw_accept]" by simp
  have f: "commitToGitHub ([nw_conflict, nw_accept] ! 0)
             (filter is_pending (syncQueue loaded_app) ! 0) = Inr (Failure ''Conflict'')"
    by (simp add: p commit_conflict_a)
  note T = failed_job_is_marked_and_the_batch_goes_on [OF loaded_idle two_nets k f]
  from T have m: "job_a\<lparr>status := Some ''failed'', error := Some ''Conflict''\<rparr>
     \<in> set (queueStore (drain_pass [nw_conflict, nw_accept] loaded_app))"
    by (simp add: p)
  from T have at: "attempts (trace (drain_pass [nw_conflict, nw_accept] loaded_app)) =
      attempts (trace loaded_app) @ filter is_pending (syncQueue loaded_app)"
    by blast
  from T have "\<forall>i. 0 < i \<and> i < length [nw_conflict, nw_accept] \<longrightarrow>
      Attempt (filter is_pending (syncQueue loaded_app) ! i)
        \<in> set (trace (drain_pass [nw_conflict, nw_accept] loaded_app))"
    by blast
  then have "0 < (1::nat) \<and> 1 < length [nw_conflict, nw_accept] \<longrightarrow>
      Attempt (filter is_pending (syncQueue loaded_app) ! 1)
        \<in> set (trace (drain_pass [nw_conflict, nw_accept] loaded_app))"
    by blast
  then have d: "Attempt job_d \<in> set (trace (drain_pass [nw_conflict, nw_accept] loaded_app))"
    by (simp add: p)
  from T have fin: "drains (drain_pass [nw_conflict, nw_accept] loaded_app) = []"
    "\<not> isSyncing (drain_pass [nw_conflict, nw_accept] loaded_app)"
    by blast+
  show ?thesis
    using loaded_idle commit_conflict_a m d fin
    by (simp add: at loaded_app_fields pending_sample)
qed

text \<open>
  C5, as stated, fails: the selection of \<^verbatim>\<open>processSyncQueue\<close> keeps the jobs whose
  status is \<^verbatim>\<open>'pending'\<close> only. After the pass in which the publish of job \<open>a\<close> met a
  conflict, the reloaded queue holds \<open>a\<close> and \<open>c\<close> with status \<^verbatim>\<open>'failed'\<close>; the device
  is online and no drain is active, and the next call of the drain returns without
  attempting anything.
\<close>

theorem failed_job_is_not_retried:
  "job_a\<lparr>status := Some ''failed'', error := Some ''Conflict''\<rparr> \<in> set (syncQueue conflicted_app) \<and>
   job_c \<in> set (syncQueue conflicted_app) \<and> status job_c = Some ''failed'' \<and>
   onLine conflicted_app \<and> \<not> isSyncing conflicted_app \<and> drains conflicted_app = [] \<and>
   processSyncQueue conflicted_app = conflicted_app \<and>
   attempts (trace (processSyncQueue conflicted_app)) = [job_a, job_d]"
  by (simp add: conflicted_app_fields processSyncQueue_def is_pending_def sample_pending
      job_c_def mk_job_def sample_pending [unfolded is_pending_def])

text \<open>
  Two instances: job \<open>c\<close>, failed in the store found at start-up, is not attempted by
  the pass over the loaded queue; job \<open>a\<close>, failed in that pass, is not attempted by
  the calls that follow its reload.
\<close>

lemma conflicted_run:
  "run (StartupTimer # pass_events [nw_conflict, nw_accept] @ [LoadSucceeds]) loaded_app
   = conflicted_app"
  by (simp add: conflicted_app_def drain_pass_def)

lemma failed_a_in_store:
  "job_a\<lparr>status := Some ''failed'', error := Some ''Conflict''\<rparr> \<in> set (queueStore conflicted_app)"
  "job_id (job_a\<lparr>status := Some ''failed'', error := Some ''Conflict''\<rparr>) = Some ''a''"
  "job_c \<in> set (queueStore loaded_app)" "status job_c = Some ''failed''"
  by (simp_all add: conflicted_app_fields loaded_app_fields sample_store_def job_ids
      job_c_def mk_job_def)

theorem only_pending_jobs_are_attempted_witness:
  "reachable loaded_app \<and> drains loaded_app = [] \<and>
   syncQueue loaded_app = queueStore loaded_app \<and>
   job_c \<in> set (queueStore loaded_app) \<and> status job_c = Some ''failed'' \<and>
   attempts (trace (run (StartupTimer # pass_events [nw_conflict, nw_accept] @ [LoadSucceeds])
                     loaded_app)) = [job_a, job_d] \<and>
   (\<exists>tr. trace (run (StartupTimer # pass_events [nw_conflict, nw_accept] @ [LoadSucceeds])
                  loaded_app) = trace loaded_app @ tr \<and>
         list_all (\<lambda>jb. job_id jb \<noteq> Some ''c'') (attempts tr)) \<and>
   reachable conflicted_app \<and> drains conflicted_app = [] \<and>
   syncQueue conflicted_app = queueStore conflicted_app \<and>
   job_a\<lparr>status := Some ''failed'', error := Some ''Conflict''\<rparr> \<in> set (queueStore conflicted_app) \<and>
   filter is_pending (syncQueue conflicted_app) = [] \<and>
   processSyncQueue conflicted_app = conflicted_app \<and>
   (\<exists>tr. trace (run [SyncNow, Online, StartupTimer] conflicted_app) = trace conflicted_app @ tr \<and>
         list_all (\<lambda>jb. job_id jb \<noteq> Some ''a'') (attempts tr)) \<and>
   status job_a = Some ''pending'' \<and> status job_d = Some ''pending''"
proof -
  note L = only_pending_jobs_are_attempted [OF reachable_loaded]
  note C = only_pending_jobs_are_attempted [OF reachable_conflicted]
  let ?evs = "StartupTimer # pass_events [nw_conflict, nw_accept] @ [LoadSucceeds]"
  let ?a = "job_a\<lparr>status := Some ''failed'', error := Some ''Conflict''\<rparr>"
  from L have "drains loaded_app = [] \<and> syncQueue loaded_app = queueStore loaded_app \<and>
      job_c \<in> set (queueStore loaded_app) \<and> status job_c = Some ''failed'' \<longrightarrow>
      (\<exists>tr. trace (run ?evs loaded_app) = trace loaded_app @ tr \<and>
            (\<forall>jb \<in> set (attempts tr). job_id jb \<noteq> job_id job_c))"
    by blast
  then have 1: "\<exists>tr. trace (run ?evs loaded_app) = trace loaded_app @ tr \<and>
      list_all (\<lambda>jb. job_id jb \<noteq> Some ''c'') (attempts tr)"
    using failed_a_in_store by (simp add: loaded_app_fields job_ids list_all_iff)
  from C have "drains conflicted_app = [] \<and> syncQueue conflicted_app = queueStore conflicted_app \<and>
      ?a \<in> set (queueStore conflicted_app) \<and> status ?a = Some ''failed'' \<longrightarrow>
      (\<exists>tr. trace (run [SyncNow, Online, StartupTimer] conflicted_app) = trace conflicted_app @ tr \<and>
            (\<forall>jb \<in> set (attempts tr). job_id jb \<noteq> job_id ?a))"
    by blast
  then have 2: "\<exists>tr. trace (run [SyncNow, Online, StartupTimer] conflicted_app)
        = trace conflicted_app @ tr \<and> list_all (\<lambda>jb. job_id jb \<noteq> Some ''a'') (attempts tr)"
    using failed_a_in_store(1) by (simp add: conflicted_app_fields(2,4) job_ids list_all_iff)
  have np: "filter is_pending (syncQueue conflicted_app) = []"
    by (simp add: conflicted_app_fields is_pending_def sample_pending [unfolded is_pending_def]
        job_c_def job_b_def mk_job_def)
  from C np have 3: "processSyncQueue conflicted_app = conflicted_app" by blast
  have 4: "attempts (trace (run ?evs loaded_app)) = [job_a, job_d]"
    by (simp only: conflicted_run) (simp add: conflicted_app_fields)
  from C have "\<forall>jb \<in> set (attempts (trace conflicted_app)). status jb = Some ''pending''"
    by blast
  then have 5: "status job_a = Some ''pending'' \<and> status job_d = Some ''pending''"
    by (simp add: conflicted_app_fields)
  show ?thesis
    using 1 2 3 4 5 np reachable_loaded reachable_conflicted failed_a_in_store
    by (simp add: loaded_app_fields conflicted_app_fields(2,4))
qed

text \<open>
  The state in which the hypothesis on the loaded queue does not hold. \<^verbatim>\<open>loadSyncQueue\<close>
  returns no promise for its \<^verbatim>\<open>getAll\<close> request, so \<^verbatim>\<open>await this.loadSyncQueue()\<close> at
  the end of \<^verbatim>\<open>processSyncQueue\<close> does not wait for it, unlike the promises of
  \<^verbatim>\<open>addToSyncQueue\<close> and \<^verbatim>\<open>updateQueueJob\<close>. Until the request succeeds the loaded
  queue is the one the finished drain had read: a call of the drain in between
  publishes job \<open>a\<close> again, which the store already holds as \<^verbatim>\<open>'failed'\<close>. This is a
  defect of the code; the amended claims C5 and C6 leave it out.
\<close>

lemma stale_app_fields:
  "\<not> isSyncing stale_app" "drains stale_app = []" "loads stale_app = Suc 0"
  "onLine stale_app" "syncQueue stale_app = sample_store"
  "queueStore stale_app =
     [job_a\<lparr>status := Some ''failed'', error := Some ''Conflict''\<rparr>, job_b, job_c,
      job_d\<lparr>status := Some ''completed''\<rparr>]"
  "trace stale_app =
     [Attempt job_a, Outcome job_a (Failure ''Conflict''),
      Attempt job_d, Outcome job_d (Success accepted)]"
proof -
  have d: "drains started_app = [AwaitCommit job_a [job_d]]" by (simp add: started_app_fields)
  have wf: "wf_store (queueStore started_app)" by (simp add: started_app_fields wf_sample_store)
  have sub: "set (map job_id [job_a, job_d]) \<subseteq> set (map job_id (queueStore started_app))"
    by (simp add: started_app_fields sample_store_def)
  have len: "length [nw_conflict, nw_accept] = Suc (length [job_d])" by simp
  have e: "stale_app = run (pass_events [nw_conflict, nw_accept]) started_app"
    by (simp add: stale_app_def started_app_def)
  note L = pass_loop [OF d wf sub len]
  from L show "\<not> isSyncing stale_app" "drains stale_app = []" "loads stale_app = Suc 0"
    "onLine stale_app" "syncQueue stale_app = sample_store"
    unfolding e by (simp_all add: started_app_fields)
  from L show "queueStore stale_app =
     [job_a\<lparr>status := Some ''failed'', error := Some ''Conflict''\<rparr>, job_b, job_c,
      job_d\<lparr>status := Some ''completed''\<rparr>]"
    unfolding e
    by (simp add: started_app_fields sample_results settle_sample assign_failed
        assign_completed)
  from L show "trace stale_app =
     [Attempt job_a, Outcome job_a (Failure ''Conflict''),
      Attempt job_d, Outcome job_d (Success accepted)]"
    unfolding e by (simp add: started_app_fields sample_results pass_log_def)
qed

lemma stale_queue_is_published_again:
  "reachable stale_app \<and> \<not> isSyncing stale_app \<and> drains stale_app = [] \<and>
   loads stale_app = Suc 0 \<and>
   job_a\<lparr>status := Some ''failed'', error := Some ''Conflict''\<rparr> \<in> set (queueStore stale_app) \<and>
   job_a \<in> set (syncQueue stale_app) \<and>
   drains (step SyncNow stale_app) = [AwaitCommit job_a [job_d]] \<and>
   attempts (trace (step SyncNow stale_app)) = [job_a, job_d, job_a]"
proof -
  have "reachable stale_app"
    unfolding stale_app_def by (intro reachable_run reachable_loaded)
  moreover have "job_a \<in> set (syncQueue stale_app)"
    by (simp add: stale_app_fields sample_store_def)
  moreover have "drains (step SyncNow stale_app) = [AwaitCommit job_a [job_d]]"
    "attempts (trace (step SyncNow stale_app)) = [job_a, job_d, job_a]"
    by (simp_all add: stale_app_fields syncNow_def processSyncQueue_def updateSyncIndicator_def
        pending_sample)
  ultimately show ?thesis
    by (simp add: stale_app_fields(1,2,3,6))
qed

end
